theory Spec2Isabelle
  imports Complex_Main "HOL-Library.Log_Nat"
begin

section \<open>Numbers\<close>

text \<open>
  The program is JavaScript: every number is an IEEE 754 double. A finite double is
  modelled by the real (or integer) it denotes, and each addition, subtraction and
  multiplication of the ledger and of the payout rounds its exact result to the
  nearest double, ties to the even significand (\<open>fl\<close>). \<open>Math.floor\<close>, \<open>Math.max\<close>,
  \<open>Math.min\<close> and the comparisons are exact on doubles and are \<open>floor\<close>, \<open>max\<close>, \<open>min\<close>
  and the order of the reals. The exponent of \<open>fl\<close> is unbounded: overflow to
  \<open>Infinity\<close> (beyond 1.8e308), underflow (below 2.3e-308), \<open>NaN\<close> and the sign of
  zero are outside the model.
  The geometry of the board adds and multiplies small multiples of a half, which are
  exact, and is written without \<open>fl\<close>; so are the position a ball is created at,
  which nothing reads afterwards, and the sum of \<open>adjustBet\<close>, which is clamped to
  the range from 10 to 10000, where rounding changes nothing.
\<close>

text \<open>Rounding a real to the nearest integer, a tie to the even one.\<close>

definition rne :: "real \<Rightarrow> int" where
  "rne x = (let f = \<lfloor>x\<rfloor>; d = x - of_int f
            in if d < 1/2 then f else if 1/2 < d then f + 1
               else if even f then f else f + 1)"

text \<open>
  The binary exponent of a positive real \<open>a\<close>: the \<open>e\<close> with \<open>2^e \<le> a < 2^(e+1)\<close>,
  computed from the bit length of an integer (lemma \<open>expo_bounds\<close>).
\<close>

definition expo :: "real \<Rightarrow> int" where
  "expo a = (if 1 \<le> a then bitlen \<lfloor>a\<rfloor> - 1 else - bitlen (\<lceil>1 / a\<rceil> - 1))"

text \<open>The nearest double: 53 significant bits at the exponent of the value.\<close>

definition fl :: "real \<Rightarrow> real" where
  "fl x = (if x = 0 then 0
           else let q = 2 powi (expo \<bar>x\<bar> - 52) in q * of_int (rne (x / q)))"

text \<open>
  \<open>parseInt(value.toString(), 10)\<close> for an integer-valued number. Below 1e21
  \<open>toString\<close> writes the decimal digits and \<open>parseInt\<close> reads the number back. From
  1e21 on it writes exponent notation, \<open>d.ddde+N\<close> or \<open>de+N\<close>, with the shortest digit
  string that denotes the number, and \<open>parseInt\<close> reads the one digit before the point
  or the \<open>e\<close>. \<open>decimalDigits\<close> counts the digits of the number (a double has at most
  309). \<open>exponentDigit\<close> finds the digit read: for 1 to 17 digits it tries the digit
  string below the number and the one above, and takes the first that reads as the
  number (a string that rounds up to a power of ten is written \<open>1e+N\<close>).
\<close>

definition decimalDigits :: "int \<Rightarrow> nat" where
  "decimalDigits v = length [p \<leftarrow> [0..<400]. 10 ^ p \<le> v]"

definition readsAs :: "int \<Rightarrow> int \<Rightarrow> nat \<Rightarrow> bool" where
  "readsAs v s p = (fl (of_int (s * 10 ^ p)) = of_int v)"

definition exponentDigit :: "int \<Rightarrow> int" where
  "exponentDigit v =
     (let N = decimalDigits v;
          found = [if s = 10 ^ k then 1 else s div 10 ^ (k - 1).
                     k \<leftarrow> [1..<18],
                     s \<leftarrow> [v div 10 ^ (N - k), v div 10 ^ (N - k) + 1],
                     readsAs v s (N - k)]
      in case found of d # _ \<Rightarrow> d | [] \<Rightarrow> v div 10 ^ (N - 1))"

definition readBack :: "int \<Rightarrow> int" where
  "readBack v = (if \<bar>v\<bar> < 10 ^ 21 then v else sgn v * exponentDigit \<bar>v\<bar>)"

section \<open>The chip manager (src/js/chip-manager.js)\<close>

text \<open>
  The module's variables and its environment. \<open>stored\<close> is the item
  \<open>localStorage["arcade_chips"]\<close>: the program only writes \<open>value.toString()\<close> of a
  non-negative integer there, so the item is kept as the integer \<open>v\<close> whose
  \<open>toString\<close> it is, \<open>None\<close> for \<open>null\<close>; reading it with \<open>parseInt(stored, 10)\<close>
  gives \<open>readBack v\<close>.
  \<open>getItemThrows\<close> and \<open>setItemThrows\<close> say whether the browser refuses the two calls
  (a blocked iframe, a full quota). \<open>dispatched\<close> lists the balances carried by the
  \<open>chipBalanceChange\<close> events, oldest first.
\<close>

record chip_manager =
  memoryBalance :: "int option"
  useMemoryFallback :: bool
  stored :: "int option"
  getItemThrows :: bool
  setItemThrows :: bool
  dispatched :: "int list"

definition INITIAL_BALANCE :: int where
  "INITIAL_BALANCE = 10000"

text \<open>\<open>isLocalStorageAvailable\<close>: the probe writes and removes a test key.\<close>

definition isLocalStorageAvailable :: "chip_manager \<Rightarrow> bool" where
  "isLocalStorageAvailable m = (\<not> setItemThrows m)"

text \<open>The module's initialisation, given what the browser holds.\<close>

definition ChipManager_init :: "int option \<Rightarrow> bool \<Rightarrow> bool \<Rightarrow> chip_manager" where
  "ChipManager_init item getThrows setThrows =
     (let m = \<lparr>memoryBalance = None, useMemoryFallback = False, stored = item,
                getItemThrows = getThrows, setItemThrows = setThrows, dispatched = []\<rparr>
      in if \<not> isLocalStorageAvailable m
         then m\<lparr>useMemoryFallback := True, memoryBalance := Some INITIAL_BALANCE\<rparr>
         else m)"

definition dispatchBalanceChange :: "int \<Rightarrow> chip_manager \<Rightarrow> chip_manager" where
  "dispatchBalanceChange newBalance m = m\<lparr>dispatched := dispatched m @ [newBalance]\<rparr>"

definition setBalance :: "real \<Rightarrow> chip_manager \<Rightarrow> int \<times> chip_manager" where
  "setBalance amount m =
     (let val = max 0 \<lfloor>amount\<rfloor>;
          m1 = (if useMemoryFallback m then m\<lparr>memoryBalance := Some val\<rparr>
                else if setItemThrows m
                     then m\<lparr>useMemoryFallback := True, memoryBalance := Some val\<rparr>
                     else m\<lparr>stored := Some val\<rparr>)
      in (val, dispatchBalanceChange val m1))"

text \<open>
  \<open>getBalance\<close> initialises a missing balance as a side effect, and switches to the
  memory fallback when reading the store throws.
\<close>

definition memoryOrInitial :: "chip_manager \<Rightarrow> int \<times> chip_manager" where
  "memoryOrInitial m =
     (case memoryBalance m of
        None \<Rightarrow> (INITIAL_BALANCE, m\<lparr>memoryBalance := Some INITIAL_BALANCE\<rparr>)
      | Some b \<Rightarrow> (b, m))"

definition getBalance :: "chip_manager \<Rightarrow> int \<times> chip_manager" where
  "getBalance m =
     (if useMemoryFallback m then memoryOrInitial m
      else if getItemThrows m then memoryOrInitial (m\<lparr>useMemoryFallback := True\<rparr>)
      else (case stored m of
              None \<Rightarrow> (INITIAL_BALANCE, snd (setBalance (of_int INITIAL_BALANCE) m))
            | Some v \<Rightarrow> (readBack v, m)))"

definition deduct :: "real \<Rightarrow> chip_manager \<Rightarrow> bool \<times> chip_manager" where
  "deduct amount m =
     (let (current, m1) = getBalance m
      in if of_int current < amount then (False, m1)
         else (True, snd (setBalance (fl (of_int current - amount)) m1)))"

definition award :: "real \<Rightarrow> chip_manager \<Rightarrow> int \<times> chip_manager" where
  "award amount m =
     (let (current, m1) = getBalance m
      in setBalance (fl (of_int current + amount)) m1)"

definition reset :: "chip_manager \<Rightarrow> int \<times> chip_manager" where
  "reset m = setBalance (of_int INITIAL_BALANCE) m"

definition canAfford :: "real \<Rightarrow> chip_manager \<Rightarrow> bool \<times> chip_manager" where
  "canAfford amount m =
     (let (current, m1) = getBalance m in (amount \<le> of_int current, m1))"

definition isUsingMemoryFallback :: "chip_manager \<Rightarrow> bool" where
  "isUsingMemoryFallback m = useMemoryFallback m"

text \<open>
  What the ledger holds: the variable or the item the next read is served from when
  the store answers.
\<close>

definition heldBalance :: "chip_manager \<Rightarrow> int option" where
  "heldBalance m = (if useMemoryFallback m then memoryBalance m else stored m)"

section \<open>The Plinko game (src/games/plinko/plinko.js)\<close>

subsection \<open>Configuration\<close>

text \<open>
  \<open>CONFIG\<close>, without the colour tiers of the multiplier display. The multipliers
  are listed as the source writes them, \<open>1.5\<close>, \<open>1.2\<close>, \<open>0.5\<close> and \<open>0.3\<close> as
  fractions; the table holds the doubles these literals denote.
\<close>

record config =
  rows :: nat
  pegRadius :: real
  ballRadius :: real
  pegGap :: real
  rowGap :: real
  canvasWidth :: real
  canvasHeight :: real
  ballDropVariance :: real
  multipliers :: "real list"

definition listedMultipliers :: "real list" where
  "listedMultipliers = [10, 3, 3/2, 6/5, 1, 1/2, 3/10, 1/2, 1, 6/5, 3/2, 3, 10]"

definition CONFIG :: config where
  "CONFIG = \<lparr>rows = 12, pegRadius = 4, ballRadius = 8, pegGap = 35, rowGap = 30,
              canvasWidth = 500, canvasHeight = 450, ballDropVariance = 15,
              multipliers = map fl listedMultipliers\<rparr>"

subsection \<open>Board layout: \<open>createPegs\<close>\<close>

record bucket =
  left :: real
  right :: real
  center :: real

text \<open>The pegs of one row, as the inner loop places them: \<open>(x, y)\<close> per column.\<close>

definition pegsOfRow :: "config \<Rightarrow> nat \<Rightarrow> (real \<times> real) list" where
  "pegsOfRow cfg row =
     (let startY = 50;
          centerX = canvasWidth cfg / 2;
          pegsInRow = row + 3;
          rowWidth = (real pegsInRow - 1) * pegGap cfg;
          startX = centerX - rowWidth / 2
      in map (\<lambda>col. (startX + real col * pegGap cfg, startY + real row * rowGap cfg))
             [0..<pegsInRow])"

text \<open>
  The body of the second loop: the bucket pushed at index \<open>i\<close>, with the three
  constants computed before the loop.
\<close>

definition bucketAt :: "config \<Rightarrow> nat \<Rightarrow> bucket" where
  "bucketAt cfg i =
     (let centerX = canvasWidth cfg / 2;
          finalRowPegs = rows cfg + 3;
          finalRowWidth = (real finalRowPegs - 1) * pegGap cfg;
          finalStartX = centerX - finalRowWidth / 2;
          leftBound = (if i = 0 then 0
                       else finalStartX + (real i - 1) * pegGap cfg + pegGap cfg / 2);
          rightBound = (if i = finalRowPegs then canvasWidth cfg
                        else finalStartX + real i * pegGap cfg - pegGap cfg / 2)
      in \<lparr>left = leftBound, right = rightBound, center = (leftBound + rightBound) / 2\<rparr>)"

text \<open>
  \<open>createPegs\<close> returns the pegs it adds to the world, row by row, and the value it
  assigns to \<open>bucketPositions\<close> (\<open>i\<close> runs from \<open>0\<close> to \<open>finalRowPegs\<close> inclusive).
\<close>

definition createPegs :: "config \<Rightarrow> (real \<times> real) list list \<times> bucket list" where
  "createPegs cfg =
     (map (pegsOfRow cfg) [0..<rows cfg],
      map (bucketAt cfg) [0..<(rows cfg + 3) + 1])"

subsection \<open>Landing resolution\<close>

text \<open>
  The scan of \<open>handleBallLanding\<close>: \<open>bucketIndex\<close> starts at \<open>0\<close>, the first interval
  that holds \<open>x\<close> sets it and breaks, and a scan that finds none leaves it \<open>0\<close>. The
  third argument is the loop counter.
\<close>

fun scanBuckets :: "bucket list \<Rightarrow> real \<Rightarrow> nat \<Rightarrow> nat" where
  "scanBuckets [] x i = 0"
| "scanBuckets (b # bs) x i =
     (if left b \<le> x \<and> x < right b then i else scanBuckets bs x (Suc i))"

definition bucketIndexOf :: "bucket list \<Rightarrow> real \<Rightarrow> nat" where
  "bucketIndexOf bs x = scanBuckets bs x 0"

text \<open>A position at or beyond both bounds of every interval.\<close>

definition rightOfAll :: "bucket list \<Rightarrow> real \<Rightarrow> bool" where
  "rightOfAll bs x = list_all (\<lambda>b. left b \<le> x \<and> right b \<le> x) bs"

definition multiplierIndexOf :: "nat \<Rightarrow> nat" where
  "multiplierIndexOf bucketIndex = min bucketIndex (length (multipliers CONFIG) - 1)"

definition winAmountOf :: "int \<Rightarrow> real \<Rightarrow> int" where
  "winAmountOf betAmount multiplier = \<lfloor>fl (of_int betAmount * multiplier)\<rfloor>"

subsection \<open>Game state\<close>

text \<open>
  A ball object: the fields the game attaches to the Matter.js body, and the
  horizontal position it is created at. Its later positions belong to the physics
  engine and reach the game with the collision that reports them.
\<close>

record ball =
  dropX :: real
  betAmount :: int
  landed :: bool

text \<open>
  A body as the collision handler sees it: its label, and for a ball its identity and
  its \<open>position.x\<close> when the event is raised. The walls carry the engine's default
  label.
\<close>

datatype body = Ball nat real | BottomSensor | Peg | Wall

datatype timer = ReEnableDrop | RemoveBall nat

datatype alert = MinimumBet | NotEnoughChips

text \<open>
  The module's variables and the parts of the page it touches. \<open>objects\<close> holds every
  ball object created so far; a ball's identity is its index there, and \<open>balls\<close> (the
  in-flight array) holds identities. \<open>betInput\<close> is \<open>parseInt(betInput.value, 10)\<close>,
  \<open>None\<close> for \<open>NaN\<close>. \<open>timers\<close> are the pending \<open>setTimeout\<close> callbacks of \<open>dropBall\<close>
  and \<open>handleBallLanding\<close>; \<open>results\<close> and \<open>highlights\<close> are the calls of
  \<open>updateResult\<close> (multiplier, win, wager) and \<open>highlightBucket\<close>, oldest first.
\<close>

record game =
  chips :: chip_manager
  objects :: "ball list"
  balls :: "nat list"
  isDropping :: bool
  dropBtnDisabled :: bool
  bucketPositions :: "bucket list"
  betInput :: "int option"
  timers :: "timer list"
  results :: "(real \<times> int \<times> int) list"
  highlights :: "nat list"
  alerts :: "alert list"

text \<open>
  The \<open>DOMContentLoaded\<close> handler of chip-manager.js reads the balance and announces
  it; \<open>initGame\<close> builds the board. The engine's world is not modelled: the game adds a
  ball to it and removes it from it exactly when it does so in \<open>balls\<close>.
\<close>

definition chipsLoaded :: "chip_manager \<Rightarrow> chip_manager" where
  "chipsLoaded m = (let (balance, m1) = getBalance m in dispatchBalanceChange balance m1)"

definition initGame :: "chip_manager \<Rightarrow> int option \<Rightarrow> game" where
  "initGame m input =
     \<lparr>chips = m, objects = [], balls = [],
      isDropping = False, dropBtnDisabled = False,
      bucketPositions = snd (createPegs CONFIG), betInput = input,
      timers = [], results = [], highlights = [], alerts = []\<rparr>"

subsection \<open>Settlement\<close>

definition handleBallLanding :: "nat \<Rightarrow> real \<Rightarrow> game \<Rightarrow> game" where
  "handleBallLanding i x g =
     (let bucketIndex = bucketIndexOf (bucketPositions g) x;
          multiplierIndex = multiplierIndexOf bucketIndex;
          multiplier = multipliers CONFIG ! multiplierIndex;
          bet = betAmount (objects g ! i);
          winAmount = winAmountOf bet multiplier
      in g\<lparr>chips := snd (award (of_int winAmount) (chips g)),
           results := results g @ [(multiplier, winAmount, bet)],
           highlights := highlights g @ [multiplierIndex],
           timers := timers g @ [RemoveBall i]\<rparr>)"

text \<open>The ball of a pair, as the handler picks it: \<open>bodyA\<close> first.\<close>

fun ballOf :: "body \<Rightarrow> body \<Rightarrow> (nat \<times> real) option" where
  "ballOf (Ball i x) bodyB = Some (i, x)"
| "ballOf bodyA (Ball i x) = Some (i, x)"
| "ballOf bodyA bodyB = None"

text \<open>
  One pair of a \<open>collisionStart\<close> event. The engine reports bodies of its world only,
  so a ball the game never created does not occur; the model leaves the state alone.
\<close>

definition collisionPair :: "game \<Rightarrow> body \<times> body \<Rightarrow> game" where
  "collisionPair g pair =
     (let (bodyA, bodyB) = pair
      in if bodyA = BottomSensor \<or> bodyB = BottomSensor
         then (case ballOf bodyA bodyB of
                 None \<Rightarrow> g
               | Some (i, x) \<Rightarrow>
                   if i < length (objects g) \<and> \<not> landed (objects g ! i)
                   then handleBallLanding i x
                          (g\<lparr>objects := (objects g)[i := (objects g ! i)\<lparr>landed := True\<rparr>]\<rparr>)
                   else g)
         else g)"

definition collisionStart :: "(body \<times> body) list \<Rightarrow> game \<Rightarrow> game" where
  "collisionStart pairs g = foldl collisionPair g pairs"

text \<open>The callback \<open>handleBallLanding\<close> schedules for 500 ms later.\<close>

definition removeBall :: "nat \<Rightarrow> game \<Rightarrow> game" where
  "removeBall i g =
     (let g1 = g\<lparr>balls := filter (\<lambda>b. b \<noteq> i) (balls g)\<rparr>
      in if length (balls g1) = 0
         then g1\<lparr>isDropping := False, dropBtnDisabled := False\<rparr>
         else g1)"

subsection \<open>Game actions\<close>

text \<open>\<open>dropBall\<close>; the argument is the value \<open>Math.random()\<close> returns.\<close>

definition dropBall :: "real \<Rightarrow> game \<Rightarrow> game" where
  "dropBall rnd g =
     (if isDropping g then g
      else
        let bet = (case betInput g of None \<Rightarrow> 100 | Some n \<Rightarrow> if n = 0 then 100 else n)
        in if bet < 10 then g\<lparr>alerts := alerts g @ [MinimumBet]\<rparr>
           else
             let (affordable, m1) = canAfford (of_int bet) (chips g)
             in if \<not> affordable
                then g\<lparr>chips := m1, alerts := alerts g @ [NotEnoughChips]\<rparr>
                else
                  let m2 = snd (deduct (of_int bet) m1);
                      centerX = canvasWidth CONFIG / 2;
                      x = centerX + (rnd - 1/2) * ballDropVariance CONFIG * 2;
                      b = \<lparr>dropX = x, betAmount = bet, landed = False\<rparr>
                  in g\<lparr>chips := m2, isDropping := True, dropBtnDisabled := True,
                       objects := objects g @ [b],
                       balls := balls g @ [length (objects g)],
                       timers := timers g @ [ReEnableDrop]\<rparr>)"

text \<open>The callback \<open>dropBall\<close> schedules for 300 ms later.\<close>

definition reEnableDrop :: "game \<Rightarrow> game" where
  "reEnableDrop g =
     (if length (balls g) < 5
      then g\<lparr>isDropping := False, dropBtnDisabled := False\<rparr>
      else g)"

definition adjustBet :: "int \<Rightarrow> game \<Rightarrow> game" where
  "adjustBet delta g =
     (let v = (case betInput g of None \<Rightarrow> 100 | Some n \<Rightarrow> if n = 0 then 100 else n);
          v' = max 10 (min 10000 (v + delta))
      in g\<lparr>betInput := Some v'\<rparr>)"

definition setBet :: "int \<Rightarrow> game \<Rightarrow> game" where
  "setBet amount g = g\<lparr>betInput := Some amount\<rparr>"

subsection \<open>Runs of the page\<close>

text \<open>
  What can happen to the page: a click on the drop button, on a bet button, a
  \<open>collisionStart\<close> event of the engine, and a pending timer that fires. Real time is
  left out: any pending timer may fire next (given by its place in the queue). Every
  order of events the browser can produce is a run of this model.
\<close>

datatype event =
    DropBall real
  | AdjustBet int
  | SetBet int
  | CollisionStart "(body \<times> body) list"
  | TimerFires nat

definition runTimer :: "timer \<Rightarrow> game \<Rightarrow> game" where
  "runTimer t g = (case t of ReEnableDrop \<Rightarrow> reEnableDrop g | RemoveBall i \<Rightarrow> removeBall i g)"

definition fire :: "event \<Rightarrow> game \<Rightarrow> game option" where
  "fire e g =
     (case e of
        DropBall rnd \<Rightarrow> Some (dropBall rnd g)
      | AdjustBet delta \<Rightarrow> Some (adjustBet delta g)
      | SetBet amount \<Rightarrow> Some (setBet amount g)
      | CollisionStart pairs \<Rightarrow> Some (collisionStart pairs g)
      | TimerFires k \<Rightarrow>
          if k < length (timers g)
          then Some (runTimer (timers g ! k)
                       (g\<lparr>timers := take k (timers g) @ drop (Suc k) (timers g)\<rparr>))
          else None)"

fun run :: "event list \<Rightarrow> game \<Rightarrow> game option" where
  "run [] g = Some g"
| "run (e # es) g = (case fire e g of None \<Rightarrow> None | Some g' \<Rightarrow> run es g')"

definition reachable :: "game \<Rightarrow> bool" where
  "reachable g =
     (\<exists>item getThrows setThrows input es.
        run es (initGame (chipsLoaded (ChipManager_init item getThrows setThrows)) input)
          = Some g)"

text \<open>
  The cap on balls in flight, as a property of a state: at most five balls, the drop
  flag set whenever there are five, and the flag equal to the button's \<open>disabled\<close>.
\<close>

definition withinCap :: "game \<Rightarrow> bool" where
  "withinCap g = (length (balls g) \<le> 5 \<and> (length (balls g) < 5 \<or> isDropping g)
                  \<and> isDropping g = dropBtnDisabled g)"

text \<open>
  A state in which drops are held back: the drop flag is set, balls are in flight
  and no re-enable timer is pending.
\<close>

definition heldBack :: "game \<Rightarrow> bool" where
  "heldBack g = (isDropping g \<and> ReEnableDrop \<notin> set (timers g) \<and> balls g \<noteq> [])"

text \<open>
  A run passes a state with no ball in flight: at its start, at its end or in
  between.
\<close>

fun everEmpty :: "event list \<Rightarrow> game \<Rightarrow> bool" where
  "everEmpty [] g = (balls g = [])"
| "everEmpty (e # es) g =
     (balls g = [] \<or> (case fire e g of None \<Rightarrow> False | Some g' \<Rightarrow> everEmpty es g'))"

subsection \<open>Sensor reports and scenarios\<close>


text \<open>
  A first visit: nothing stored, the store works, the bet field reads 100. Then one
  drop; five drops, each after the re-enable timer of the one before; the same run
  continued until the first ball is retired; the five drops and the fifth re-enable
  timer (\<open>fiveHeld\<close>), and from there the first ball landing and being retired and a
  sixth drop request (\<open>retireOne\<close>); and a run that wins 100000 chips and then bets
  50000.
\<close>

definition freshPage :: game where
  "freshPage = initGame (chipsLoaded (ChipManager_init None False False)) (Some 100)"

definition oneDrop :: game where
  "oneDrop = dropBall (1/2) freshPage"

definition fiveDrops :: "event list" where
  "fiveDrops = [DropBall (1/2), TimerFires 0, DropBall (1/2), TimerFires 0,
                DropBall (1/2), TimerFires 0, DropBall (1/2), TimerFires 0,
                DropBall (1/2)]"

definition firstRetired :: "event list" where
  "firstRetired = fiveDrops @ [TimerFires 0, CollisionStart [(Ball 0 250, BottomSensor)],
                               TimerFires 0]"

definition fiveHeld :: "event list" where
  "fiveHeld = fiveDrops @ [TimerFires 0]"

definition retireOne :: "event list" where
  "retireOne = [CollisionStart [(Ball 0 250, BottomSensor)], TimerFires 0, DropBall (1/2)]"

definition bigBet :: "event list" where
  "bigBet = [SetBet 10000, DropBall (1/2), CollisionStart [(Ball 0 250, BottomSensor)],
             TimerFires 0, TimerFires 0, SetBet 50000, DropBall (1/2)]"

text \<open>
  A page that finds 1995262314969359 chips stored and wagers all of them in one
  drop.
\<close>

definition allIn :: game where
  "allIn = dropBall (1/2)
             (initGame (chipsLoaded (ChipManager_init (Some 1995262314969359) False False))
                (Some 1995262314969359))"

section \<open>Rounding to doubles\<close>

lemma bitlen_pos: "1 \<le> N \<Longrightarrow> 1 \<le> bitlen N"
proof -
  assume N: "1 \<le> N"
  have "bitlen N \<noteq> 0" using N by (simp add: bitlen_eq_zero_iff)
  moreover have "0 \<le> bitlen N" by (rule bitlen_nonneg)
  ultimately show ?thesis by linarith
qed

lemma bitlen_real_bounds:
  assumes "1 \<le> N"
  shows "(2::real) ^ nat (bitlen N - 1) \<le> of_int N"
    and "real_of_int N + 1 \<le> 2 ^ nat (bitlen N)"
proof -
  have b: "2 ^ nat (bitlen N - 1) \<le> N \<and> N < 2 ^ nat (bitlen N)"
    using bitlen_bounds [of N] assms by simp
  have "real_of_int (2 ^ nat (bitlen N - 1)) \<le> of_int N"
    using b by (simp only: of_int_le_iff)
  then show "(2::real) ^ nat (bitlen N - 1) \<le> of_int N" by simp
  have "N + 1 \<le> 2 ^ nat (bitlen N)" using b by simp
  then have "real_of_int (N + 1) \<le> real_of_int (2 ^ nat (bitlen N))"
    by (simp only: of_int_le_iff)
  then show "real_of_int N + 1 \<le> 2 ^ nat (bitlen N)" by simp
qed

text \<open>\<open>expo\<close> is the binary exponent.\<close>

lemma expo_bounds:
  assumes "0 < a"
  shows "2 powi (expo a) \<le> a \<and> a < 2 powi (expo a + 1)"
proof (cases "1 \<le> a")
  case True
  define N where "N = \<lfloor>a\<rfloor>"
  have N: "1 \<le> N" using True by (simp add: N_def)
  have bl: "1 \<le> bitlen N" using N by (rule bitlen_pos)
  have e: "expo a = bitlen N - 1" using True by (simp add: expo_def N_def)
  have l: "(2::real) powi (bitlen N - 1) = 2 ^ nat (bitlen N - 1)"
    using bl by (simp add: power_int_def)
  have u: "(2::real) powi (bitlen N - 1 + 1) = 2 ^ nat (bitlen N)"
    using bl by (simp add: power_int_def)
  have Na: "of_int N \<le> a" "a < of_int N + 1"
    unfolding N_def by linarith+
  have lo: "2 ^ nat (bitlen N - 1) \<le> a"
    using bitlen_real_bounds(1) [OF N] Na(1) by linarith
  have hi: "a < 2 ^ nat (bitlen N)"
    using bitlen_real_bounds(2) [OF N] Na(2) by linarith
  show ?thesis unfolding e l u using lo hi by simp
next
  case False
  define r where "r = 1 / a"
  have r: "1 < r" using False assms by (simp add: r_def)
  define M where "M = \<lceil>r\<rceil> - 1"
  have rM: "of_int M < r" "r \<le> of_int M + 1"
    unfolding M_def by (simp_all, linarith+)
  have M: "1 \<le> M" using r rM by linarith
  have bl: "1 \<le> bitlen M" using M by (rule bitlen_pos)
  have e: "expo a = - bitlen M" using False by (simp add: expo_def M_def r_def)
  have ru: "r \<le> 2 ^ nat (bitlen M)"
    using bitlen_real_bounds(2) [OF M] rM(2) by linarith
  have rl: "2 ^ nat (bitlen M - 1) < r"
    using bitlen_real_bounds(1) [OF M] rM(1) by linarith
  have a: "a = 1 / r" using assms by (simp add: r_def)
  have lo: "1 / 2 ^ nat (bitlen M) \<le> a"
    unfolding a using ru r by (simp add: frac_le)
  have hi: "a < 1 / 2 ^ nat (bitlen M - 1)"
    unfolding a using rl by (simp add: frac_less2)
  have l: "(2::real) powi (- bitlen M) = 1 / 2 ^ nat (bitlen M)"
    using bl by (simp add: power_int_def field_simps)
  have "- bitlen M + 1 = - (bitlen M - 1)" by simp
  then have u: "(2::real) powi (- bitlen M + 1) = 1 / 2 ^ nat (bitlen M - 1)"
    using bl by (simp add: power_int_def field_simps)
  show ?thesis unfolding e l u using lo hi by simp
qed

lemma expo_unique:
  assumes "2 powi e \<le> a" and "a < 2 powi (e + 1)"
  shows "expo a = e"
proof -
  have pos: "0 < a"
    using assms(1) by (smt (verit) zero_less_power_int)
  note b = expo_bounds [OF pos]
  have "\<not> e < expo a"
  proof
    assume "e < expo a"
    then have "e + 1 \<le> expo a" by simp
    then have "(2::real) powi (e + 1) \<le> 2 powi (expo a)"
      by (intro power_int_increasing) simp_all
    with b assms(2) show False by linarith
  qed
  moreover have "\<not> expo a < e"
  proof
    assume "expo a < e"
    then have "expo a + 1 \<le> e" by simp
    then have "(2::real) powi (expo a + 1) \<le> 2 powi e"
      by (intro power_int_increasing) simp_all
    with b assms(1) show False by linarith
  qed
  ultimately show ?thesis by linarith
qed

lemma expo_le:
  assumes "0 < x" and "x < 2 ^ n"
  shows "expo x \<le> int n - 1"
proof (rule ccontr)
  assume "\<not> expo x \<le> int n - 1"
  then have "int n \<le> expo x" by simp
  then have "(2::real) powi (int n) \<le> 2 powi (expo x)"
    by (intro power_int_increasing) simp_all
  with expo_bounds [OF assms(1)] assms(2) show False by simp
qed

text \<open>\<open>fl\<close> with the exponent given: the form in which concrete values are computed.\<close>

lemma fl_eq:
  assumes "2 powi e \<le> \<bar>x\<bar>" and "\<bar>x\<bar> < 2 powi (e + 1)"
  shows "fl x = 2 powi (e - 52) * of_int (rne (x / 2 powi (e - 52)))"
proof -
  have "0 < \<bar>x\<bar>"
    using assms(1) by (smt (verit) zero_less_power_int)
  then have "x \<noteq> 0" by simp
  then show ?thesis
    by (simp add: fl_def Let_def expo_unique [OF assms])
qed

lemma fl_0 [simp]: "fl 0 = 0"
  by (simp add: fl_def)

lemma pow52_split: "e \<le> 52 \<Longrightarrow> (2::real) powi (e - 52) = 1 / 2 ^ nat (52 - e)"
proof -
  assume "e \<le> 52"
  then have "e - 52 = - int (nat (52 - e))" by simp
  then show ?thesis by (simp only: power_int_minus power_int_of_nat inverse_eq_divide)
qed

lemma pow_split: "n \<le> m \<Longrightarrow> (2::real) ^ n * 2 ^ (m - n) = 2 ^ m"
  by (simp add: power_add [symmetric])

lemma fl_scaled:
  assumes "2 ^ n \<le> x" and "x < 2 * 2 ^ n" and "n \<le> 52"
  shows "fl x = of_int (rne (x * 2 ^ (52 - n))) / 2 ^ (52 - n)"
proof -
  have l: "(2::real) powi (int n) = 2 ^ n" by simp
  have u: "(2::real) powi (int n + 1) = 2 * 2 ^ n"
    by (simp add: power_int_add)
  have "int n - 52 = - int (52 - n)" using assms(3) by simp
  then have q: "(2::real) powi (int n - 52) = 1 / 2 ^ (52 - n)"
    by (simp only: power_int_minus power_int_of_nat inverse_eq_divide)
  have pos: "0 < x" using assms(1) by (smt (verit) zero_less_power)
  show ?thesis
    using fl_eq [of "int n" x] assms(1,2) pos unfolding l u q by simp
qed

lemma fl_scaled_below_one:
  assumes "1 / 2 \<le> x" and "x < 1"
  shows "fl x = of_int (rne (x * 2 ^ 53)) / 2 ^ 53"
proof -
  have l: "(2::real) powi (- 1) = 1 / 2" by (simp add: power_int_minus)
  have q: "(2::real) powi (- 1 - 52) = 1 / 2 ^ 53"
  proof -
    have "(- 1 - 52 :: int) = - int 53" by simp
    then show ?thesis
      by (simp only: power_int_minus power_int_of_nat inverse_eq_divide)
  qed
  have pos: "0 < x" using assms(1) by simp
  show ?thesis
    using fl_eq [of "- 1" x] assms pos unfolding l q by simp
qed

subsection \<open>Rounding to an integer\<close>

lemma rne_of_int [simp]: "rne (of_int k) = k"
  by (simp add: rne_def)

lemma rne_bounds: "\<lfloor>z\<rfloor> \<le> rne z" "rne z \<le> \<lceil>z\<rceil>"
proof -
  show "\<lfloor>z\<rfloor> \<le> rne z" by (simp add: rne_def Let_def)
  have "z - of_int \<lfloor>z\<rfloor> \<noteq> 0 \<Longrightarrow> \<lfloor>z\<rfloor> + 1 \<le> \<lceil>z\<rceil>"
    by (smt (verit) ceiling_correct floor_correct of_int_1 of_int_add of_int_less_iff)
  moreover have "0 \<le> z - of_int \<lfloor>z\<rfloor>" by linarith
  moreover have "\<lfloor>z\<rfloor> \<le> \<lceil>z\<rceil>" by (simp add: floor_le_ceiling)
  ultimately show "rne z \<le> \<lceil>z\<rceil>"
    by (auto simp: rne_def Let_def)
qed

lemma rne_ge_int: "of_int j \<le> z \<Longrightarrow> j \<le> rne z"
  using rne_bounds(1) [of z] by (meson le_floor_iff order_trans)

lemma rne_le_int: "z \<le> of_int j \<Longrightarrow> rne z \<le> j"
  using rne_bounds(2) [of z] by (meson ceiling_le_iff order_trans)

lemma rne_near_below:
  assumes "0 \<le> d" and "d < 1/2"
  shows "rne (of_int K - d) = K"
proof (cases "d = 0")
  case True
  then show ?thesis by simp
next
  case False
  have f: "\<lfloor>of_int K - d\<rfloor> = K - 1"
    using assms False by (simp add: floor_unique)
  have "1/2 < of_int K - d - of_int (K - 1)" using assms by simp
  then show ?thesis by (simp add: rne_def Let_def f)
qed

lemma rne_half_up: "rne z \<le> z + 1/2" "z - 1/2 \<le> rne z"
proof -
  show "rne z \<le> z + 1/2" "z - 1/2 \<le> rne z"
    by (auto simp: rne_def Let_def; linarith)+
qed

subsection \<open>Integers up to 2^53 are doubles\<close>

lemma fl_of_int:
  assumes "\<bar>k\<bar> \<le> 2 ^ 53"
  shows "fl (of_int k) = of_int k"
proof (cases "k = 0")
  case True
  then show ?thesis by (simp add: fl_def)
next
  case False
  define x where "x = real_of_int k"
  have pos: "0 < \<bar>x\<bar>" using False by (simp add: x_def)
  define e where "e = expo \<bar>x\<bar>"
  note b = expo_bounds [OF pos, folded e_def]
  have xle: "\<bar>x\<bar> \<le> 2 ^ 53"
  proof -
    have "real_of_int \<bar>k\<bar> \<le> real_of_int (2 ^ 53)"
      using assms by (simp only: of_int_le_iff)
    then show ?thesis by (simp add: x_def)
  qed
  have e53: "e \<le> 53"
  proof (rule ccontr)
    assume "\<not> e \<le> 53"
    then have "54 \<le> e" by simp
    then have "(2::real) powi 54 \<le> 2 powi e" by (intro power_int_increasing) simp_all
    with b xle show False by simp
  qed
  show ?thesis
  proof (cases "e \<le> 52")
    case True
    have q: "(2::real) powi (e - 52) = 1 / 2 ^ nat (52 - e)" using True by (rule pow52_split)
    have "x / (1 / 2 ^ nat (52 - e)) = of_int (k * 2 ^ nat (52 - e))"
      by (simp add: x_def)
    then have "rne (x / (1 / 2 ^ nat (52 - e))) = k * 2 ^ nat (52 - e)"
      by (simp only: rne_of_int)
    then have "fl x = 1 / 2 ^ nat (52 - e) * of_int (k * 2 ^ nat (52 - e))"
      using fl_eq [of e x] b q by (simp add: pos)
    then show ?thesis by (simp add: x_def)
  next
    case False
    with e53 have e: "e = 53" by simp
    have "2 ^ 53 \<le> \<bar>x\<bar>" using b e by simp
    with xle have ax: "\<bar>x\<bar> = 2 ^ 53" by simp
    have "\<bar>k\<bar> = 2 ^ 53"
    proof -
      have "real_of_int \<bar>k\<bar> = real_of_int (2 ^ 53)" using ax by (simp add: x_def)
      then show ?thesis by (simp only: of_int_eq_iff)
    qed
    then have kk: "k = 2 ^ 53 \<or> k = - (2 ^ 53)" by linarith
    have "fl x = 2 * of_int (rne (x / 2))"
      using fl_eq [of e x] b e by simp
    moreover have "x / 2 = of_int (k div 2)" using kk by (auto simp: x_def)
    ultimately have "fl x = 2 * of_int (k div 2)" by (simp only: rne_of_int)
    then show ?thesis using kk by (auto simp: x_def)
  qed
qed

lemma fl_numeral: "numeral n \<le> (2 ^ 53 :: int) \<Longrightarrow> fl (numeral n) = numeral n"
  using fl_of_int [of "numeral n"] by simp

lemma fl_1 [simp]: "fl 1 = 1"
  using fl_of_int [of 1] by simp

text \<open>Below 2^53 the rounded value lies between the integers around the exact one.\<close>

lemma fl_ge_int:
  assumes "of_int j \<le> x" and "0 < x" and "x \<le> 2 ^ 53"
  shows "of_int j \<le> fl x"
proof (cases "x = 2 ^ 53")
  case True
  have "fl (of_int (2 ^ 53)) = of_int (2 ^ 53)" by (rule fl_of_int) simp
  then have "fl x = x" using True by simp
  with assms(1) show ?thesis by simp
next
  case False
  with assms(3) have lt: "x < 2 ^ 53" by simp
  define e where "e = expo x"
  have e: "e \<le> 52" using expo_le [OF assms(2) lt] by (simp add: e_def)
  note b = expo_bounds [OF assms(2), folded e_def]
  have q: "(2::real) powi (e - 52) = 1 / 2 ^ nat (52 - e)" using e by (rule pow52_split)
  have f: "fl x = 1 / 2 ^ nat (52 - e) * of_int (rne (x / (1 / 2 ^ nat (52 - e))))"
    using fl_eq [of e x] b assms(2) q by simp
  have "of_int (j * 2 ^ nat (52 - e)) \<le> x / (1 / 2 ^ nat (52 - e))"
    using assms(1) by (simp add: mult_right_mono)
  then have "j * 2 ^ nat (52 - e) \<le> rne (x / (1 / 2 ^ nat (52 - e)))"
    by (rule rne_ge_int)
  then have "real_of_int (j * 2 ^ nat (52 - e))
      \<le> real_of_int (rne (x / (1 / 2 ^ nat (52 - e))))"
    by (simp only: of_int_le_iff)
  then show ?thesis unfolding f by (simp add: field_simps)
qed

lemma fl_le_int:
  assumes "x \<le> of_int j" and "0 < x" and "x \<le> 2 ^ 53"
  shows "fl x \<le> of_int j"
proof (cases "x = 2 ^ 53")
  case True
  have "fl (of_int (2 ^ 53)) = of_int (2 ^ 53)" by (rule fl_of_int) simp
  then have "fl x = x" using True by simp
  with assms(1) show ?thesis by simp
next
  case False
  with assms(3) have lt: "x < 2 ^ 53" by simp
  define e where "e = expo x"
  have e: "e \<le> 52" using expo_le [OF assms(2) lt] by (simp add: e_def)
  note b = expo_bounds [OF assms(2), folded e_def]
  have q: "(2::real) powi (e - 52) = 1 / 2 ^ nat (52 - e)" using e by (rule pow52_split)
  have f: "fl x = 1 / 2 ^ nat (52 - e) * of_int (rne (x / (1 / 2 ^ nat (52 - e))))"
    using fl_eq [of e x] b assms(2) q by simp
  have "x / (1 / 2 ^ nat (52 - e)) \<le> of_int (j * 2 ^ nat (52 - e))"
    using assms(1) by (simp add: mult_right_mono)
  then have "rne (x / (1 / 2 ^ nat (52 - e))) \<le> j * 2 ^ nat (52 - e)"
    by (rule rne_le_int)
  then have "real_of_int (rne (x / (1 / 2 ^ nat (52 - e))))
      \<le> real_of_int (j * 2 ^ nat (52 - e))"
    by (simp only: of_int_le_iff)
  then show ?thesis unfolding f by (simp add: field_simps)
qed

text \<open>Half-integers below 2^52 are doubles.\<close>

lemma fl_half_int:
  assumes "0 \<le> k" and "k < 2 ^ 53"
  shows "fl (of_int k / 2) = of_int k / 2"
proof (cases "k = 0")
  case True
  then show ?thesis by simp
next
  case False
  define x where "x = real_of_int k / 2"
  have pos: "0 < x" using assms(1) False by (simp add: x_def)
  have "real_of_int k < real_of_int (2 ^ 53)" using assms(2) by (simp only: of_int_less_iff)
  then have lt: "x < 2 ^ 52" by (simp add: x_def)
  define e where "e = expo x"
  have e: "e \<le> 51" using expo_le [OF pos lt] by (simp add: e_def)
  note b = expo_bounds [OF pos, folded e_def]
  have q: "(2::real) powi (e - 52) = 1 / 2 ^ nat (52 - e)" using e by (intro pow52_split) simp
  have f: "fl x = 1 / 2 ^ nat (52 - e) * of_int (rne (x / (1 / 2 ^ nat (52 - e))))"
    using fl_eq [of e x] b pos q by simp
  have "nat (52 - e) = Suc (nat (51 - e))" using e by simp
  then have "x / (1 / 2 ^ nat (52 - e)) = of_int (k * 2 ^ nat (51 - e))"
    by (simp add: x_def)
  then have "rne (x / (1 / 2 ^ nat (52 - e))) = k * 2 ^ nat (51 - e)"
    by (simp only: rne_of_int)
  then have "fl x = 1 / 2 ^ nat (52 - e) * of_int (k * 2 ^ nat (51 - e))"
    using f by simp
  also have "\<dots> = x"
    using \<open>nat (52 - e) = Suc (nat (51 - e))\<close> by (simp add: x_def)
  finally show ?thesis by (simp add: x_def)
qed

text \<open>Rounding raises a value below 2^50 by at most a sixteenth.\<close>

lemma fl_le_add:
  assumes "0 < x" and "x < 2 ^ 50"
  shows "fl x \<le> x + 1/16"
proof -
  define e where "e = expo x"
  have e: "e \<le> 49" using expo_le [OF assms] by (simp add: e_def)
  note b = expo_bounds [OF assms(1), folded e_def]
  define n where "n = nat (52 - e)"
  have n: "3 \<le> n" using e by (simp add: n_def)
  have q: "(2::real) powi (e - 52) = 1 / 2 ^ n"
    unfolding n_def using e by (intro pow52_split) simp
  have f: "fl x = 1 / 2 ^ n * of_int (rne (x / (1 / 2 ^ n)))"
    using fl_eq [of e x] b assms(1) q by simp
  have "real_of_int (rne (x * 2 ^ n)) \<le> x * 2 ^ n + 1/2"
    by (rule rne_half_up)
  then have "fl x \<le> 1 / 2 ^ n * (x * 2 ^ n + 1/2)"
    unfolding f by (simp add: divide_right_mono)
  also have "\<dots> = x + 1 / (2 * 2 ^ n)" by (simp add: field_simps)
  also have "\<dots> \<le> x + 1/16"
  proof -
    have "(2::real) ^ 3 \<le> 2 ^ n" using n by (intro power_increasing) simp_all
    then have "(16::real) \<le> 2 * 2 ^ n" by simp
    then have "1 / (2 * 2 ^ n) \<le> 1 / (16::real)" by (intro divide_left_mono) simp_all
    then show ?thesis by simp
  qed
  finally show ?thesis .
qed

subsection \<open>Just below an integer\<close>

lemma small_scaled:
  fixes d :: real
  assumes "d * 2 ^ 54 < 2 * 2 ^ n" and "n \<le> 52"
  shows "d * 2 ^ (52 - n) < 1 / 2"
proof -
  have "d * 2 ^ 54 * 2 ^ (52 - n) < 2 * 2 ^ n * 2 ^ (52 - n)"
    using assms(1) by (simp add: mult_strict_right_mono)
  moreover have "(2::real) ^ n * 2 ^ (52 - n) = 2 ^ 52"
    using assms(2) by (rule pow_split)
  ultimately have "d * 2 ^ (52 - n) * 2 ^ 54 < 2 ^ 53" by (simp add: mult.assoc mult.commute)
  then show ?thesis by simp
qed

lemma below_power:
  fixes d :: real and j :: nat
  assumes "d * 2 ^ 54 < 2 * 2 ^ j" "0 \<le> d"
  shows "d < 2 ^ j"
proof -
  have "d * 2 \<le> d * 2 ^ 54" using assms(2) by (intro mult_left_mono) simp_all
  then show ?thesis using assms(1) by linarith
qed

lemma rne_scaled_below:
  fixes x d :: real and k :: int and n :: nat
  assumes "x * 2 ^ (52 - n) = of_int (k * 2 ^ (52 - n)) - d * 2 ^ (52 - n)"
   "d * 2 ^ (52 - n) < 1 / 2" "0 \<le> d"
  shows "rne (x * 2 ^ (52 - n)) = k * 2 ^ (52 - n)"
proof -
  have "0 \<le> d * 2 ^ (52 - n)" using assms(3) by simp
  from rne_near_below [OF this assms(2), of "k * 2 ^ (52 - n)"] assms(1)
  show ?thesis by (simp only:)
qed

lemma scaled_difference:
  fixes d :: real and k :: int and n :: nat
  shows "(real_of_int k - d) * 2 ^ (52 - n) = of_int (k * 2 ^ (52 - n)) - d * 2 ^ (52 - n)"
  by (simp add: algebra_simps)

lemma scaled_back:
  fixes k :: int and n :: nat
  shows "real_of_int (k * 2 ^ (52 - n)) / 2 ^ (52 - n) = real_of_int k"
  by simp

lemma fl_near_same_binade:
  assumes "2 ^ n \<le> real_of_int k - d" and "real_of_int k \<le> 2 * 2 ^ n" and "n \<le> 52"
    and "0 < d" and "d * 2 ^ 54 < 2 * 2 ^ n"
  shows "fl (of_int k - d) = of_int k"
proof -
  define x where "x = real_of_int k - d"
  have lo: "2 ^ n \<le> x" using assms(1) by (simp add: x_def)
  have hi: "x < 2 * 2 ^ n" using assms(2,4) by (simp add: x_def)
  have f: "fl x = of_int (rne (x * 2 ^ (52 - n))) / 2 ^ (52 - n)"
    using lo hi assms(3) by (rule fl_scaled)
  have small: "d * 2 ^ (52 - n) < 1 / 2"
    using assms(5,3) by (rule small_scaled)
  have "x * 2 ^ (52 - n) = of_int (k * 2 ^ (52 - n)) - d * 2 ^ (52 - n)"
    unfolding x_def by (rule scaled_difference)
  then have "rne (x * 2 ^ (52 - n)) = k * 2 ^ (52 - n)"
    using small assms(4) by (intro rne_scaled_below [of _ _ _ d]) simp_all
  then have "fl x = real_of_int (k * 2 ^ (52 - n)) / 2 ^ (52 - n)"
    using f by (simp only:)
  then show ?thesis unfolding x_def by (simp only: scaled_back)
qed

lemma fl_near_one_below:
  assumes "0 < d" and "d * 2 ^ 54 < 1"
  shows "fl (1 - d) = 1"
proof -
  have dh: "d < 1 / 2" using assms by simp
  have f: "fl (1 - d) = of_int (rne ((1 - d) * 2 ^ 53)) / 2 ^ 53"
    using dh assms(1) by (intro fl_scaled_below_one) simp_all
  have s: "d * 2 ^ 53 < 1 / 2" using assms(2) by simp
  have "0 \<le> d * 2 ^ 53" using assms(1) by simp
  from rne_near_below [OF this s, of "2 ^ 53"]
  have "rne ((1 - d) * 2 ^ 53) = 2 ^ 53" by (simp add: algebra_simps)
  then show ?thesis using f by simp
qed

text \<open>
  A value below an integer \<open>k\<close> by less than \<open>k / 2^54\<close> rounds to \<open>k\<close>.
\<close>

lemma fl_near_int_below:
  assumes k: "0 < k" "k \<le> 2 ^ 53" and d: "0 \<le> d" "d * 2 ^ 54 < of_int k"
  shows "fl (of_int k - d) = of_int k"
proof (cases "d = 0")
  case True
  then show ?thesis using k by (simp add: fl_of_int)
next
  case False
  then have dpos: "0 < d" using d(1) by simp
  define n where "n = nat (bitlen k - 1)"
  have bl: "1 \<le> bitlen k" using k(1) by (intro bitlen_pos) simp
  have kb1: "(2::real) ^ n \<le> of_int k"
    unfolding n_def using bitlen_real_bounds(1) [of k] k(1) by simp
  have "nat (bitlen k) = Suc n" using bl by (simp add: n_def)
  then have kb2: "real_of_int k + 1 \<le> 2 * 2 ^ n"
    using bitlen_real_bounds(2) [of k] k(1) by simp
  have "real_of_int k \<le> real_of_int (2 ^ 53)" using k(2) by (simp only: of_int_le_iff)
  then have k53: "real_of_int k \<le> 2 ^ 53" by simp
  have n53: "n \<le> 53"
  proof (rule ccontr)
    assume "\<not> n \<le> 53"
    then have "54 \<le> n" by simp
    then have "(2::real) ^ 54 \<le> 2 ^ n" by (intro power_increasing) simp_all
    with kb1 k53 have "(2::real) ^ 54 \<le> 2 ^ 53" by linarith
    then show False by simp
  qed
  have dhalf: "d < 1 / 2" using d(2) k53 by simp
  show ?thesis
  proof (cases "real_of_int k = 2 ^ n")
    case False
    have "real_of_int (2 ^ n) \<le> real_of_int k" using kb1 by simp
    then have "(2 ^ n :: int) \<le> k" by (simp only: of_int_le_iff)
    moreover have "k \<noteq> 2 ^ n" using False by auto
    ultimately have "2 ^ n + 1 \<le> k" by simp
    then have "real_of_int (2 ^ n + 1) \<le> real_of_int k" by (simp only: of_int_le_iff)
    then have k1: "2 ^ n + 1 \<le> real_of_int k" by simp
    have n52: "n \<le> 52"
    proof (rule ccontr)
      assume "\<not> n \<le> 52"
      with n53 have "n = 53" by simp
      with k1 k53 have "(2::real) ^ 53 + 1 \<le> 2 ^ 53" by simp
      then show False by simp
    qed
    have a1: "2 ^ n \<le> real_of_int k - d" using k1 dhalf by linarith
    have a2: "real_of_int k \<le> 2 * 2 ^ n" using kb2 by linarith
    have a5: "d * 2 ^ 54 < 2 * 2 ^ n" using d(2) a2 by linarith
    show ?thesis using a1 a2 n52 dpos a5 by (rule fl_near_same_binade)
  next
    case True
    show ?thesis
    proof (cases n)
      case 0
      then have k1: "real_of_int k = 1" using True by simp
      have "d * 2 ^ 54 < 1" using d(2) k1 by simp
      from fl_near_one_below [OF dpos this] show ?thesis by (simp only: k1)
    next
      case (Suc j)
      have j52: "j \<le> 52" using n53 Suc by simp
      have kk: "real_of_int k = 2 * 2 ^ j" using True Suc by simp
      have a5: "d * 2 ^ 54 < 2 * 2 ^ j" using d(2) kk by simp
      have "d < 2 ^ j" using a5 d(1) by (rule below_power)
      then have a1: "2 ^ j \<le> real_of_int k - d" using kk by linarith
      have a2: "real_of_int k \<le> 2 * 2 ^ j" using kk by simp
      show ?thesis using a1 a2 j52 dpos a5 by (rule fl_near_same_binade)
    qed
  qed
qed

subsection \<open>Values of \<open>fl\<close>\<close>

lemma fl_6_5: "fl (6/5) = 5404319552844595 / 4503599627370496"
proof -
  have "fl (6/5) = of_int (rne (6/5 * 2 ^ (52 - 0))) / 2 ^ (52 - 0)"
    by (rule fl_scaled) simp_all
  then show ?thesis by (simp add: rne_def)
qed

lemma fl_3_10: "fl (3/10) = 5404319552844595 / 18014398509481984"
proof -
  have l: "(2::real) powi (- 2) = 1 / 4" by (simp add: power_int_minus)
  have u: "(2::real) powi (- 2 + 1) = 1 / 2" by (simp add: power_int_minus)
  have "(- 2 - 52 :: int) = - int 54" by simp
  then have q: "(2::real) powi (- 2 - 52) = 1 / 2 ^ 54"
    by (simp only: power_int_minus power_int_of_nat inverse_eq_divide)
  have "fl (3/10) = 1 / 2 ^ 54 * of_int (rne (3/10 / (1 / 2 ^ 54)))"
    using fl_eq [of "- 2" "3/10"] unfolding l u q by simp
  then show ?thesis by (simp add: rne_def)
qed

text \<open>2^53 + 1 is a tie between 2^53 and 2^53 + 2 and goes to the even 2^53.\<close>

lemma fl_tie_2_53: "fl 9007199254740993 = 9007199254740992"
proof -
  have l: "(2::real) powi 53 = 2 ^ 53" by (simp add: power_int_def)
  have u: "(2::real) powi (53 + 1) = 2 ^ 54" by (simp add: power_int_def)
  have q: "(2::real) powi (53 - 52) = 2" by simp
  have "fl 9007199254740993 = 2 * of_int (rne (9007199254740993 / 2))"
    using fl_eq [of 53 9007199254740993] unfolding l u q by simp
  then show ?thesis by (simp add: rne_def)
qed

text \<open>
  Between 2^54 and 2^55 doubles are the multiples of 4: 19952623149693590 is a tie
  and goes up, 19952623149693592 is a double.
\<close>

lemma fl_tie_up: "fl 19952623149693590 = 19952623149693592"
proof -
  have l: "(2::real) powi 54 = 2 ^ 54" by (simp add: power_int_def)
  have u: "(2::real) powi (54 + 1) = 2 ^ 55" by (simp add: power_int_def)
  have q: "(2::real) powi (54 - 52) = 4" by (simp add: power_int_def)
  have "fl 19952623149693590 = 4 * of_int (rne (19952623149693590 / 4))"
    using fl_eq [of 54 19952623149693590] unfolding l u q by simp
  then show ?thesis by (simp add: rne_def)
qed

lemma fl_multiple_of_4: "fl 19952623149693592 = 19952623149693592"
proof -
  have l: "(2::real) powi 54 = 2 ^ 54" by (simp add: power_int_def)
  have u: "(2::real) powi (54 + 1) = 2 ^ 55" by (simp add: power_int_def)
  have q: "(2::real) powi (54 - 52) = 4" by (simp add: power_int_def)
  have "fl 19952623149693592 = 4 * of_int (rne (19952623149693592 / 4))"
    using fl_eq [of 54 19952623149693592] unfolding l u q by simp
  then show ?thesis by (simp add: rne_def)
qed

lemma readBack_small: "\<bar>v\<bar> < 10 ^ 21 \<Longrightarrow> readBack v = v"
  by (simp add: readBack_def)

section \<open>The ledger\<close>

lemma readBack_numeral: "numeral n < (10 ^ 21 :: int) \<Longrightarrow> readBack (numeral n) = numeral n"
  by (simp add: readBack_def)

lemma readBack_0: "readBack 0 = 0"
  by (simp add: readBack_def)

lemma fl_half_numeral: "numeral n < (2 ^ 53 :: int) \<Longrightarrow> fl (numeral n / 2) = numeral n / 2"
  using fl_half_int [of "numeral n"] by simp

lemmas ledger_defs = getBalance_def memoryOrInitial_def setBalance_def
  dispatchBalanceChange_def Let_def INITIAL_BALANCE_def readBack_numeral readBack_0
  fl_numeral

text \<open>A second read returns what the first did and changes nothing more.\<close>

lemma getBalance_again: "getBalance (snd (getBalance m)) = getBalance m"
  by (simp add: ledger_defs split: option.split)

text \<open>
  After a read, what \<open>setBalance\<close> writes is what the next read returns, as long as it
  is below 1e21.
\<close>

lemma getBalance_after_setBalance:
  "max 0 \<lfloor>amount\<rfloor> < 10 ^ 21 \<Longrightarrow>
   fst (getBalance (snd (setBalance amount (snd (getBalance m))))) = max 0 \<lfloor>amount\<rfloor>"
  by (simp add: ledger_defs readBack_small split: option.split)

lemma getBalance_award:
  "max 0 \<lfloor>fl (of_int (fst (getBalance m)) + amount)\<rfloor> < 10 ^ 21 \<Longrightarrow>
   fst (getBalance (snd (award amount m)))
     = max 0 \<lfloor>fl (of_int (fst (getBalance m)) + amount)\<rfloor>"
  by (simp add: award_def split_beta getBalance_after_setBalance)

lemma deduct_fst: "fst (deduct amount m) = (amount \<le> of_int (fst (getBalance m)))"
  by (auto simp: deduct_def split_beta)

lemma getBalance_deduct:
  "amount \<le> of_int (fst (getBalance m)) \<Longrightarrow>
   max 0 \<lfloor>fl (of_int (fst (getBalance m)) - amount)\<rfloor> < 10 ^ 21 \<Longrightarrow>
   fst (getBalance (snd (deduct amount m)))
     = max 0 \<lfloor>fl (of_int (fst (getBalance m)) - amount)\<rfloor>"
  by (simp add: deduct_def split_beta getBalance_after_setBalance)

lemma getBalance_deduct_refused:
  "of_int (fst (getBalance m)) < amount \<Longrightarrow>
   fst (getBalance (snd (deduct amount m))) = fst (getBalance m)"
  by (simp add: deduct_def split_beta getBalance_again)

lemma setBalance_fst: "fst (setBalance amount m) = max 0 \<lfloor>amount\<rfloor>"
  by (simp add: setBalance_def Let_def)

lemma setBalance_held:
  "heldBalance (snd (setBalance amount m)) = Some (max 0 \<lfloor>amount\<rfloor>)"
  by (simp add: setBalance_def Let_def heldBalance_def dispatchBalanceChange_def)

lemma setBalance_dispatched:
  "dispatched (snd (setBalance amount m)) = dispatched m @ [max 0 \<lfloor>amount\<rfloor>]"
  by (simp add: setBalance_def Let_def dispatchBalanceChange_def)

text \<open>
  C9. For every amount, fractional and negative ones included, \<open>setBalance\<close> returns
  \<open>max(0, floor(amount))\<close>, holds that value afterwards, and dispatches exactly one
  balance-changed event, which carries it; the value is a non-negative integer, and so
  is the balance held after \<open>award\<close>, \<open>reset\<close> and a successful \<open>deduct\<close>, which all
  write through \<open>setBalance\<close>.
\<close>

theorem setBalance_clamps:
  "fst (setBalance amount m) = max 0 \<lfloor>amount\<rfloor>
   \<and> heldBalance (snd (setBalance amount m)) = Some (max 0 \<lfloor>amount\<rfloor>)
   \<and> dispatched (snd (setBalance amount m)) = dispatched m @ [max 0 \<lfloor>amount\<rfloor>]
   \<and> 0 \<le> fst (setBalance amount m)
   \<and> (\<exists>v. 0 \<le> v \<and> heldBalance (snd (award amount m)) = Some v)
   \<and> (\<exists>v. 0 \<le> v \<and> heldBalance (snd (reset m)) = Some v)
   \<and> (if fst (deduct amount m)
      then \<exists>v. 0 \<le> v \<and> heldBalance (snd (deduct amount m)) = Some v
      else snd (deduct amount m) = snd (getBalance m))"
proof -
  have aw: "\<exists>v. 0 \<le> v \<and> heldBalance (snd (award amount m)) = Some v"
    by (simp add: award_def split_beta setBalance_held)
  have rs: "\<exists>v. 0 \<le> v \<and> heldBalance (snd (reset m)) = Some v"
    by (simp add: reset_def setBalance_held)
  have de: "if fst (deduct amount m)
            then \<exists>v. 0 \<le> v \<and> heldBalance (snd (deduct amount m)) = Some v
            else snd (deduct amount m) = snd (getBalance m)"
    by (simp add: deduct_def split_beta setBalance_held)
  show ?thesis
    using aw rs de by (simp add: setBalance_fst setBalance_held setBalance_dispatched)
qed

subsection \<open>Award and deduct\<close>

lemma below_1e21: "v \<le> (2 ^ 53 :: int) \<Longrightarrow> v < 10 ^ 21"
  by simp

lemma floor_fl_le_2_53:
  assumes "0 < x" and "x \<le> 2 ^ 53"
  shows "\<lfloor>fl x\<rfloor> \<le> 2 ^ 53"
proof -
  have "fl x \<le> of_int (2 ^ 53)"
    using assms by (intro fl_le_int) simp_all
  then have "\<lfloor>fl x\<rfloor> \<le> \<lfloor>real_of_int (2 ^ 53)\<rfloor>"
    by (rule floor_mono)
  then show ?thesis by (simp only: floor_of_int)
qed

text \<open>
  C8, amended. The balance is what \<open>getBalance\<close> returns. For every integer \<open>n\<close> with
  \<open>0 \<le> n \<le> balance\<close> and \<open>balance + n \<le> 2^53\<close>, \<open>award(n)\<close> followed by \<open>deduct(n)\<close>
  brings the balance back to its value before the two calls, and that \<open>deduct\<close>
  returns true; for every amount strictly greater than the balance, \<open>deduct\<close> returns
  false and the balance is what it was. This holds in every storage mode, as long as
  the browser does not change its mind between the calls.
\<close>

theorem award_deduct_roundtrip:
  "(0 \<le> n \<and> n \<le> fst (getBalance m) \<and> fst (getBalance m) + n \<le> 2 ^ 53 \<longrightarrow>
      fst (deduct (of_int n) (snd (award (of_int n) m)))
      \<and> fst (getBalance (snd (deduct (of_int n) (snd (award (of_int n) m)))))
          = fst (getBalance m))
   \<and> (of_int (fst (getBalance m)) < amount \<longrightarrow>
      \<not> fst (deduct amount m)
      \<and> fst (getBalance (snd (deduct amount m))) = fst (getBalance m))"
proof (intro conjI impI)
  let ?b = "fst (getBalance m)"
  let ?m = "snd (award (of_int n) m)"
  assume a: "0 \<le> n \<and> n \<le> ?b \<and> ?b + n \<le> 2 ^ 53"
  have sum: "fl (of_int ?b + of_int n) = of_int (?b + n)"
    using a fl_of_int [of "?b + n"] by simp
  have b53: "?b \<le> 2 ^ 53" using a by linarith
  have "fst (getBalance ?m) = max 0 \<lfloor>fl (of_int ?b + of_int n)\<rfloor>"
    using a by (intro getBalance_award) (simp only: sum floor_of_int, simp)
  then have after: "fst (getBalance ?m) = ?b + n"
    using a by (simp only: sum floor_of_int, simp)
  have diff: "fl (of_int (?b + n) - of_int n) = of_int ?b"
    using a b53 fl_of_int [of ?b] by simp
  show "fst (deduct (of_int n) ?m)"
    using a by (simp add: deduct_fst after)
  have "fst (getBalance (snd (deduct (of_int n) ?m)))
      = max 0 \<lfloor>fl (of_int (fst (getBalance ?m)) - of_int n)\<rfloor>"
    using a b53 by (intro getBalance_deduct) (simp_all only: after diff floor_of_int, simp_all)
  then show "fst (getBalance (snd (deduct (of_int n) ?m))) = ?b"
    using a by (simp only: after diff floor_of_int, simp)
next
  assume "of_int (fst (getBalance m)) < amount"
  then show "\<not> fst (deduct amount m)"
    and "fst (getBalance (snd (deduct amount m))) = fst (getBalance m)"
    by (simp_all add: deduct_fst getBalance_deduct_refused)
qed

text \<open>A stored balance of 500: award and deduct 200; then a deduct of 1000 is refused.\<close>

theorem award_deduct_roundtrip_witness:
  "(0::int) \<le> 200 \<and> 200 \<le> fst (getBalance (ChipManager_init (Some 500) False False))
   \<and> fst (getBalance (ChipManager_init (Some 500) False False)) + 200 \<le> 2 ^ 53
   \<and> fst (deduct 200 (snd (award 200 (ChipManager_init (Some 500) False False))))
   \<and> fst (getBalance (snd (deduct 200 (snd (award 200
            (ChipManager_init (Some 500) False False)))))) = 500
   \<and> of_int (fst (getBalance (ChipManager_init (Some 500) False False))) < (1000::real)
   \<and> \<not> fst (deduct 1000 (ChipManager_init (Some 500) False False))
   \<and> fst (getBalance (snd (deduct 1000 (ChipManager_init (Some 500) False False)))) = 500"
proof -
  have b: "fst (getBalance (ChipManager_init (Some 500) False False)) = 500"
    by (simp add: ledger_defs ChipManager_init_def isLocalStorageAvailable_def)
  show ?thesis
    using award_deduct_roundtrip [of 200 "ChipManager_init (Some 500) False False" 1000]
    by (simp add: b)
qed

text \<open>
  The claim as stated fails at the balance 2^53 = 9007199254740992 with \<open>n = 1\<close>: the
  sum 2^53 + 1 is not a double and \<open>award\<close> writes 2^53; \<open>deduct(1)\<close> returns true and
  leaves 2^53 - 1, one chip less than before the two calls.
\<close>

theorem award_deduct_roundtrip_counterexample:
  "(0::int) \<le> 1
   \<and> 1 \<le> fst (getBalance (ChipManager_init (Some 9007199254740992) False False))
   \<and> fst (getBalance (ChipManager_init (Some 9007199254740992) False False))
       = 9007199254740992
   \<and> fst (getBalance (snd (award 1 (ChipManager_init (Some 9007199254740992) False False))))
       = 9007199254740992
   \<and> fst (deduct 1 (snd (award 1 (ChipManager_init (Some 9007199254740992) False False))))
   \<and> fst (getBalance (snd (deduct 1 (snd (award 1
            (ChipManager_init (Some 9007199254740992) False False))))))
       = 9007199254740991"
  by (simp add: deduct_def award_def ledger_defs ChipManager_init_def
        isLocalStorageAvailable_def fl_tie_2_53)

text \<open>
  C10, amended. For every strictly negative amount, a non-negative balance and
  \<open>balance - amount \<le> 2^53\<close>, \<open>deduct\<close> returns true (there is no sign check) and sets
  the balance to \<open>max(0, floor(balance - amount))\<close>, the difference rounded to a
  double before the floor; the new balance is never below the old one, it is
  strictly greater when the amount is at most \<open>-1\<close>, so for every negative integer,
  and it is the old balance or one more when the amount is strictly between \<open>-1\<close>
  and \<open>0\<close>.
\<close>

theorem deduct_negative_amount:
  assumes "amount < 0" and "0 \<le> fst (getBalance m)"
    and "of_int (fst (getBalance m)) - amount \<le> 2 ^ 53"
  shows "fst (deduct amount m)
    \<and> fst (getBalance (snd (deduct amount m)))
        = max 0 \<lfloor>fl (of_int (fst (getBalance m)) - amount)\<rfloor>
    \<and> fst (getBalance m) \<le> fst (getBalance (snd (deduct amount m)))
    \<and> (amount \<le> -1 \<longrightarrow> fst (getBalance m) < fst (getBalance (snd (deduct amount m))))
    \<and> (-1 < amount \<longrightarrow> fst (getBalance (snd (deduct amount m))) \<le> fst (getBalance m) + 1)"
proof -
  let ?b = "fst (getBalance m)"
  define x where "x = of_int ?b - amount"
  have pos: "0 < x" using assms(1,2) by (simp add: x_def)
  have x53: "x \<le> 2 ^ 53" using assms(3) by (simp add: x_def)
  have le: "amount \<le> of_int ?b" using assms(1,2) by linarith
  have "of_int ?b \<le> x" using assms(1) by (simp add: x_def)
  then have "of_int ?b \<le> fl x" using pos x53 by (rule fl_ge_int)
  then have lo: "?b \<le> \<lfloor>fl x\<rfloor>" by (simp add: le_floor_iff)
  have top: "\<lfloor>fl x\<rfloor> \<le> 2 ^ 53" using pos x53 by (rule floor_fl_le_2_53)
  have m0: "max 0 \<lfloor>fl x\<rfloor> = \<lfloor>fl x\<rfloor>" using lo assms(2) by simp
  have "max 0 \<lfloor>fl x\<rfloor> < 10 ^ 21"
    unfolding m0 using top by (rule below_1e21)
  then have new: "fst (getBalance (snd (deduct amount m))) = max 0 \<lfloor>fl x\<rfloor>"
    unfolding x_def using le by (intro getBalance_deduct) simp_all
  have up: "?b < \<lfloor>fl x\<rfloor>" if "amount \<le> -1"
  proof -
    have "of_int (?b + 1) \<le> x" using that by (simp add: x_def)
    then have "of_int (?b + 1) \<le> fl x" using pos x53 by (rule fl_ge_int)
    then have "?b + 1 \<le> \<lfloor>fl x\<rfloor>" by (simp only: le_floor_iff)
    then show ?thesis by simp
  qed
  have one: "\<lfloor>fl x\<rfloor> \<le> ?b + 1" if "-1 < amount"
  proof -
    have "x \<le> of_int (?b + 1)" using that by (simp add: x_def)
    then have "fl x \<le> of_int (?b + 1)" using pos x53 by (rule fl_le_int)
    then have "\<lfloor>fl x\<rfloor> \<le> \<lfloor>real_of_int (?b + 1)\<rfloor>" by (rule floor_mono)
    then show ?thesis by (simp only: floor_of_int)
  qed
  show ?thesis
    unfolding new m0 x_def [symmetric]
    using le lo up one by (simp add: deduct_fst x_def)
qed

text \<open>In the memory fallback, with the initial 10000 chips: \<open>deduct(-3)\<close> gives 10003.\<close>

theorem deduct_negative_amount_witness:
  "(-3::real) < 0 \<and> 0 \<le> fst (getBalance (ChipManager_init (Some 500) True True))
   \<and> of_int (fst (getBalance (ChipManager_init (Some 500) True True))) - (-3 :: real) \<le> 2 ^ 53
   \<and> fst (deduct (-3) (ChipManager_init (Some 500) True True))
   \<and> fst (getBalance (snd (deduct (-3) (ChipManager_init (Some 500) True True)))) = 10003"
proof -
  have b: "fst (getBalance (ChipManager_init (Some 500) True True)) = 10000"
    by (simp add: getBalance_def memoryOrInitial_def ChipManager_init_def
          isLocalStorageAvailable_def INITIAL_BALANCE_def)
  show ?thesis
    using deduct_negative_amount [of "-3" "ChipManager_init (Some 500) True True"]
    by (simp add: b fl_numeral)
qed

text \<open>
  The claim as stated fails at the amount \<open>-0.5\<close>: with 500 chips stored, \<open>deduct\<close>
  returns true and the balance is 500 before and after.
\<close>

theorem deduct_negative_half_counterexample:
  "(- (1/2) :: real) < 0
   \<and> fst (deduct (- (1/2)) (ChipManager_init (Some 500) False False))
   \<and> fst (getBalance (ChipManager_init (Some 500) False False)) = 500
   \<and> fst (getBalance (snd (deduct (- (1/2)) (ChipManager_init (Some 500) False False))))
       = 500"
  by (simp add: deduct_def ledger_defs ChipManager_init_def isLocalStorageAvailable_def
        fl_half_numeral)

text \<open>
  Beyond 2^53 a negative integer need not raise the balance: at 2^53 chips
  \<open>deduct(-1)\<close> returns true and leaves 2^53.
\<close>

lemma deduct_minus_one_at_2_53:
  "fst (deduct (-1) (ChipManager_init (Some 9007199254740992) False False))
   \<and> fst (getBalance (ChipManager_init (Some 9007199254740992) False False))
       = 9007199254740992
   \<and> fst (getBalance (snd (deduct (-1)
        (ChipManager_init (Some 9007199254740992) False False)))) = 9007199254740992"
  by (simp add: deduct_def ledger_defs ChipManager_init_def isLocalStorageAvailable_def
        fl_tie_2_53)

text \<open>
  From 1e21 on the stored item is in exponent notation and is read back as its first
  digit: \<open>deduct(-1e21)\<close> with 500 chips returns true and writes 1e21, and the
  balance read afterwards is 1.
\<close>

lemma filter_less_upt: "filter (\<lambda>p. p < k) [0..<m] = [0..<min k m]"
proof (induction m)
  case 0
  then show ?case by simp
next
  case (Suc m)
  show ?case
  proof (cases "m < k")
    case True
    then have "min k (Suc m) = Suc m" "min k m = m" by simp_all
    then show ?thesis using Suc True by simp
  next
    case False
    then have "min k (Suc m) = k" "min k m = k" by simp_all
    then show ?thesis using Suc False by simp
  qed
qed

lemma decimalDigits_eq:
  assumes "10 ^ n \<le> v" and "v < 10 ^ Suc n" and "n < 400"
  shows "decimalDigits v = Suc n"
proof -
  have "((10::int) ^ p \<le> v) = (p < Suc n)" for p
  proof
    assume "10 ^ p \<le> v"
    then have "(10::int) ^ p < 10 ^ Suc n" using assms(2) by linarith
    then show "p < Suc n" by (rule power_less_imp_less_exp [rotated]) simp
  next
    assume "p < Suc n"
    then have "(10::int) ^ p \<le> 10 ^ n" by (intro power_increasing) simp_all
    then show "10 ^ p \<le> v" using assms(1) by linarith
  qed
  then have "decimalDigits v = length (filter (\<lambda>p. p < Suc n) [0..<400])"
    by (simp only: decimalDigits_def)
  then show ?thesis
    using assms(3) by (simp only: filter_less_upt) simp
qed

lemma fl_1e21: "fl 1000000000000000000000 = 1000000000000000000000"
proof -
  have l: "(2::real) powi 69 = 2 ^ 69" by (simp add: power_int_def)
  have u: "(2::real) powi (69 + 1) = 2 ^ 70" by (simp add: power_int_def)
  have q: "(2::real) powi (69 - 52) = 131072" by (simp add: power_int_def)
  have "fl 1000000000000000000000 = 131072 * of_int (rne (1000000000000000000000 / 131072))"
    using fl_eq [of 69 1000000000000000000000] unfolding l u q by simp
  then show ?thesis by (simp add: rne_def)
qed

lemma fl_1e21_500: "fl 1000000000000000000500 = 1000000000000000000000"
proof -
  have l: "(2::real) powi 69 = 2 ^ 69" by (simp add: power_int_def)
  have u: "(2::real) powi (69 + 1) = 2 ^ 70" by (simp add: power_int_def)
  have q: "(2::real) powi (69 - 52) = 131072" by (simp add: power_int_def)
  have "fl 1000000000000000000500 = 131072 * of_int (rne (1000000000000000000500 / 131072))"
    using fl_eq [of 69 1000000000000000000500] unfolding l u q by simp
  then show ?thesis by (simp add: rne_def)
qed

lemma exponentDigit_1e21: "exponentDigit 1000000000000000000000 = 1"
proof -
  have n: "decimalDigits 1000000000000000000000 = 22"
    using decimalDigits_eq [of 21 1000000000000000000000] by simp
  have u: "[1..<18] = 1 # [Suc 1..<18]"
    by (rule upt_conv_Cons) simp
  have r: "readsAs 1000000000000000000000 1 21"
    by (simp add: readsAs_def fl_1e21)
  show ?thesis
    unfolding exponentDigit_def n Let_def u
    using r by simp
qed

lemma readBack_1e21: "readBack 1000000000000000000000 = 1"
  by (simp add: readBack_def exponentDigit_1e21)

lemma deduct_minus_1e21:
  "fst (deduct (- 1000000000000000000000) (ChipManager_init (Some 500) False False))
   \<and> fst (getBalance (ChipManager_init (Some 500) False False)) = 500
   \<and> stored (snd (deduct (- 1000000000000000000000)
        (ChipManager_init (Some 500) False False))) = Some 1000000000000000000000
   \<and> fst (getBalance (snd (deduct (- 1000000000000000000000)
        (ChipManager_init (Some 500) False False)))) = 1"
  by (simp add: deduct_def ledger_defs ChipManager_init_def isLocalStorageAvailable_def
        fl_1e21_500 readBack_1e21)

section \<open>The board layout\<close>

text \<open>
  For every configuration, both bounds of a bucket that is neither the first nor the
  last are the same point, \<open>finalStartX + i * pegGap - pegGap / 2\<close>: the interval is
  empty, and with a positive gap the next one starts a whole gap further right.
\<close>

lemma bucketAt_inner_empty:
  "0 < i \<Longrightarrow> i < rows cfg + 3 \<Longrightarrow> left (bucketAt cfg i) = right (bucketAt cfg i)"
  by (simp add: bucketAt_def Let_def algebra_simps)

lemma bucketAt_inner_gap:
  "0 < i \<Longrightarrow> Suc i < rows cfg + 3 \<Longrightarrow>
   left (bucketAt cfg (Suc i)) = right (bucketAt cfg i) + pegGap cfg"
  by (simp add: bucketAt_def Let_def algebra_simps)

lemma createPegs_lengths:
  "length (snd (createPegs cfg)) = rows cfg + 4"
  "r < rows cfg \<Longrightarrow> length (fst (createPegs cfg) ! r) = r + 3"
  by (simp_all add: createPegs_def pegsOfRow_def Let_def)

text \<open>
  C1. The shipped configuration (\<open>rows = 12\<close>, \<open>pegGap = 35\<close>, \<open>canvasWidth = 500\<close>)
  gives these sixteen pairs of bounds. The first left bound is \<open>0\<close> and the last right
  bound is \<open>500\<close>, but no interval is non-empty: the first and the last are inverted
  (\<open>[0, -12.5)\<close> and \<open>[512.5, 500)\<close>), the fourteen between them have equal bounds, and
  every right bound differs from the next left bound. The intervals do not
  partition \<open>[0, 500)\<close>; they hold no point at all.
\<close>

theorem createPegs_shipped_bounds:
  "map (\<lambda>b. (left b, right b)) (snd (createPegs CONFIG)) =
     [(0, -25/2), (45/2, 45/2), (115/2, 115/2), (185/2, 185/2), (255/2, 255/2),
      (325/2, 325/2), (395/2, 395/2), (465/2, 465/2), (535/2, 535/2), (605/2, 605/2),
      (675/2, 675/2), (745/2, 745/2), (815/2, 815/2), (885/2, 885/2), (955/2, 955/2),
      (1025/2, 500)]"
  by (simp add: createPegs_def bucketAt_def CONFIG_def Let_def upt_conv_Cons)

text \<open>
  C2. In the shipped configuration the layout has 16 bucket intervals
  (\<open>rows + 3 + 1\<close>), the final peg row (row 11) has 14 pegs, and the multiplier
  table has 13 entries: the bucket count is neither the final row's peg count plus
  one (15) nor the length of the table.
\<close>

theorem createPegs_shipped_counts:
  "length (snd (createPegs CONFIG)) = 16
   \<and> length (last (fst (createPegs CONFIG))) = 14
   \<and> length (multipliers CONFIG) = 13"
  by (simp add: createPegs_def pegsOfRow_def CONFIG_def listedMultipliers_def Let_def
        last_map)

section \<open>The landing resolver\<close>

lemma scanBuckets_none:
  "list_all (\<lambda>b. \<not> (left b \<le> x \<and> x < right b)) bs \<Longrightarrow> scanBuckets bs x k = 0"
  by (induction bs arbitrary: k) auto

lemma scanBuckets_first:
  "i < length bs \<Longrightarrow> left (bs ! i) \<le> x \<and> x < right (bs ! i) \<Longrightarrow>
   \<forall>j<i. \<not> (left (bs ! j) \<le> x \<and> x < right (bs ! j)) \<Longrightarrow>
   scanBuckets bs x k = k + i"
proof (induction bs arbitrary: i k)
  case Nil
  then show ?case by simp
next
  case (Cons b bs)
  show ?case
  proof (cases i)
    case 0
    with Cons.prems show ?thesis by simp
  next
    case (Suc i')
    have nb: "\<not> (left b \<le> x \<and> x < right b)"
      using Cons.prems(3) Suc by auto
    have "scanBuckets bs x (Suc k) = Suc k + i'"
      using Cons.prems Suc by (intro Cons.IH) auto
    with nb Suc show ?thesis by simp
  qed
qed

lemma prefix_all: "i \<le> length bs \<Longrightarrow> list_all P (take i bs) \<Longrightarrow> \<forall>j<i. P (bs ! j)"
  by (simp add: list_all_length)

text \<open>
  With the shipped layout no interval holds any point, so every landing position
  resolves to bucket index 0.
\<close>

lemma bucketIndexOf_shipped: "bucketIndexOf (snd (createPegs CONFIG)) x = 0"
proof -
  have "list_all (\<lambda>b. \<not> (left b \<le> x \<and> x < right b)) (snd (createPegs CONFIG))"
    by (simp add: createPegs_def bucketAt_def CONFIG_def Let_def upt_conv_Cons)
  then show ?thesis
    unfolding bucketIndexOf_def by (rule scanBuckets_none)
qed

text \<open>
  C3, amended. For every list of intervals and every real landing position \<open>x\<close>, the
  resolver returns the first index \<open>i\<close> with \<open>left\<^sub>i \<le> x < right\<^sub>i\<close>; when no interval
  holds \<open>x\<close> it returns index 0, on whichever side of the intervals \<open>x\<close> lies.
\<close>

theorem bucketIndexOf_first_or_zero:
  "(i < length bs \<and> (left (bs ! i) \<le> x \<and> x < right (bs ! i))
      \<and> (\<forall>j<i. \<not> (left (bs ! j) \<le> x \<and> x < right (bs ! j)))
    \<longrightarrow> bucketIndexOf bs x = i)
   \<and> ((\<forall>j<length bs. \<not> (left (bs ! j) \<le> x \<and> x < right (bs ! j)))
    \<longrightarrow> bucketIndexOf bs x = 0)"
proof (intro conjI impI)
  assume "i < length bs \<and> (left (bs ! i) \<le> x \<and> x < right (bs ! i))
      \<and> (\<forall>j<i. \<not> (left (bs ! j) \<le> x \<and> x < right (bs ! j)))"
  then show "bucketIndexOf bs x = i"
    unfolding bucketIndexOf_def using scanBuckets_first [of i bs x 0] by simp
next
  assume "\<forall>j<length bs. \<not> (left (bs ! j) \<le> x \<and> x < right (bs ! j))"
  then have "list_all (\<lambda>b. \<not> (left b \<le> x \<and> x < right b)) bs"
    by (simp add: list_all_length)
  then show "bucketIndexOf bs x = 0"
    unfolding bucketIndexOf_def by (rule scanBuckets_none)
qed

text \<open>
  A board 1000 wide with the other shipped constants has non-empty outer buckets:
  \<open>x = 800\<close> lies in the last one, index 15, and in none before it. On the shipped
  board \<open>x = 250\<close>, the centre, lies in no interval and resolves to index 0.
\<close>

theorem bucketIndexOf_first_or_zero_witness:
  "15 < length (snd (createPegs (CONFIG\<lparr>canvasWidth := 1000\<rparr>)))
   \<and> left (snd (createPegs (CONFIG\<lparr>canvasWidth := 1000\<rparr>)) ! 15) \<le> 800
   \<and> 800 < right (snd (createPegs (CONFIG\<lparr>canvasWidth := 1000\<rparr>)) ! 15)
   \<and> list_all (\<lambda>b. \<not> (left b \<le> 800 \<and> 800 < right b))
        (take 15 (snd (createPegs (CONFIG\<lparr>canvasWidth := 1000\<rparr>))))
   \<and> bucketIndexOf (snd (createPegs (CONFIG\<lparr>canvasWidth := 1000\<rparr>))) 800 = 15
   \<and> list_all (\<lambda>b. \<not> (left b \<le> 250 \<and> 250 < right b)) (snd (createPegs CONFIG))
   \<and> bucketIndexOf (snd (createPegs CONFIG)) 250 = 0"
proof -
  let ?wide = "snd (createPegs (CONFIG\<lparr>canvasWidth := 1000\<rparr>))"
  let ?shipped = "snd (createPegs CONFIG)"
  have len: "15 < length ?wide"
    by (simp add: createPegs_def CONFIG_def)
  have last: "left (?wide ! 15) \<le> 800 \<and> 800 < right (?wide ! 15)"
    by (simp add: createPegs_def bucketAt_def CONFIG_def Let_def upt_conv_Cons)
  have before: "list_all (\<lambda>b. \<not> (left b \<le> 800 \<and> 800 < right b)) (take 15 ?wide)"
    by (simp add: createPegs_def bucketAt_def CONFIG_def Let_def upt_conv_Cons)
  have none: "list_all (\<lambda>b. \<not> (left b \<le> 250 \<and> 250 < right b)) ?shipped"
    by (simp add: createPegs_def bucketAt_def CONFIG_def Let_def upt_conv_Cons)
  have "\<forall>j<15. \<not> (left (?wide ! j) \<le> 800 \<and> 800 < right (?wide ! j))"
    using len before prefix_all [of 15 ?wide] by simp
  with len last have found: "bucketIndexOf ?wide 800 = 15"
    using bucketIndexOf_first_or_zero [of 15 ?wide 800] by blast
  have "\<forall>j<length ?shipped. \<not> (left (?shipped ! j) \<le> 250 \<and> 250 < right (?shipped ! j))"
    using none by (simp add: list_all_length)
  then have zero: "bucketIndexOf ?shipped 250 = 0"
    using bucketIndexOf_first_or_zero [of 0 ?shipped 250] by blast
  show ?thesis
    using len last before found none zero by blast
qed

text \<open>
  The claim as stated fails to the right of the intervals. On the shipped board
  \<open>x = 600\<close> is beyond every bound and resolves to index 0, not to the last index 15;
  on two well-formed intervals \<open>[0, 10)\<close> and \<open>[10, 20)\<close>, \<open>x = 20\<close> resolves to index 0,
  not to index 1.
\<close>

theorem bucketIndexOf_right_counterexample:
  "rightOfAll (snd (createPegs CONFIG)) 600
   \<and> bucketIndexOf (snd (createPegs CONFIG)) 600 = 0
   \<and> length (snd (createPegs CONFIG)) - 1 = 15
   \<and> rightOfAll [\<lparr>left = 0, right = 10, center = 5\<rparr>,
                  \<lparr>left = 10, right = 20, center = 15\<rparr>] 20
   \<and> bucketIndexOf [\<lparr>left = 0, right = 10, center = 5\<rparr>,
                     \<lparr>left = 10, right = 20, center = 15\<rparr>] 20 = 0"
  by (simp add: rightOfAll_def bucketIndexOf_def createPegs_def bucketAt_def CONFIG_def
        Let_def upt_conv_Cons)

section \<open>Settlement\<close>

lemma multiplierIndexOf_le: "multiplierIndexOf k \<le> 12"
  by (simp add: multiplierIndexOf_def CONFIG_def listedMultipliers_def)

lemma multipliers_nth: "k < 13 \<Longrightarrow> multipliers CONFIG ! k = fl (listedMultipliers ! k)"
proof -
  assume k: "k < 13"
  have "length listedMultipliers = 13"
    by (simp add: listedMultipliers_def)
  then show ?thesis
    using k by (simp add: CONFIG_def)
qed

lemma listedMultipliers_nonneg: "k < 13 \<Longrightarrow> 0 \<le> listedMultipliers ! k"
proof -
  assume k: "k < 13"
  have "list_all (\<lambda>m. 0 \<le> m) listedMultipliers"
    by (simp add: listedMultipliers_def)
  moreover have "length listedMultipliers = 13"
    by (simp add: listedMultipliers_def)
  ultimately show ?thesis
    using k by (simp add: list_all_length)
qed

subsection \<open>The win for the multipliers of the table\<close>

lemma real_le_1e14: "w \<le> (10 ^ 14 :: int) \<Longrightarrow> real_of_int w \<le> 10 ^ 14"
proof -
  assume "w \<le> 10 ^ 14"
  then have "real_of_int w \<le> real_of_int (10 ^ 14)" by (simp only: of_int_le_iff)
  then show ?thesis by simp
qed

text \<open>Whole multipliers: the product is an integer below 2^53, a double.\<close>

lemma win_whole:
  assumes "0 \<le> w" and "w \<le> 10 ^ 14" and "0 \<le> c" and "c \<le> 10"
  shows "winAmountOf w (fl (of_int c)) = \<lfloor>of_int w * real_of_int c\<rfloor>"
proof -
  have c: "fl (of_int c) = of_int c"
    using assms(3,4) by (intro fl_of_int) simp
  have "w * c \<le> 10 ^ 14 * 10"
    using assms by (intro mult_mono) simp_all
  moreover have "0 \<le> w * c" using assms(1,3) by simp
  ultimately have "\<bar>w * c\<bar> \<le> 2 ^ 53" by simp
  then have "fl (of_int (w * c)) = of_int (w * c)" by (rule fl_of_int)
  then have "fl (of_int w * of_int c) = of_int w * of_int c" by simp
  then show ?thesis by (simp only: winAmountOf_def c)
qed

text \<open>Multipliers that are halves: the product is a half-integer below 2^52, a double.\<close>

lemma win_halves:
  assumes "0 \<le> w" and "w \<le> 10 ^ 14" and "0 \<le> c" and "c \<le> 10"
  shows "winAmountOf w (fl (of_int c / 2)) = \<lfloor>of_int w * (real_of_int c / 2)\<rfloor>"
proof -
  have c: "fl (of_int c / 2) = of_int c / 2"
    using assms(3,4) by (intro fl_half_int) simp_all
  have "w * c \<le> 10 ^ 14 * 10"
    using assms by (intro mult_mono) simp_all
  moreover have "0 \<le> w * c" using assms(1,3) by simp
  ultimately have "fl (of_int (w * c) / 2) = of_int (w * c) / 2"
    by (intro fl_half_int) simp_all
  then have "fl (of_int w * (of_int c / 2)) = of_int w * (of_int c / 2)" by simp
  then show ?thesis by (simp only: winAmountOf_def c)
qed

text \<open>
  1.2 and 0.3 are not doubles: the table holds a value slightly below each. The
  exact product with a wager is then a ratio \<open>N / B\<close> less a small \<open>d\<close>. When the ratio
  is an integer the product rounds back to it; otherwise it lies at least a tenth
  above the integer below and at least a tenth below the next one, and rounding,
  which moves it by at most a sixteenth, does not reach either.
\<close>

lemma floor_fl_ratio:
  fixes N B :: int and d :: real
  assumes B: "0 < B" "B \<le> 10"
    and d: "0 \<le> d" "d \<le> 1 / 10" "d * 2 ^ 54 < of_int N / of_int B"
    and small: "real_of_int N / of_int B < 2 ^ 50"
  shows "\<lfloor>fl (of_int N / of_int B - d)\<rfloor> = N div B"
proof -
  define t where "t = real_of_int N / of_int B"
  define K where "K = N div B"
  have "d * 1 \<le> d * 2 ^ 54" using d(1) by (intro mult_left_mono) simp_all
  then have dt: "d < t" using d(3) by (simp add: t_def)
  have pos: "0 < t - d" using dt by simp
  have lt: "t - d < 2 ^ 50" using small d(1) by (simp add: t_def)
  have split: "t = of_int K + of_int (N mod B) / of_int B"
    unfolding t_def K_def by (rule of_int_div_aux)
  have Br: "0 < real_of_int B" "real_of_int B \<le> 10"
    using B by simp_all
  have "\<lfloor>fl (t - d)\<rfloor> = K"
  proof (cases "N mod B = 0")
    case True
    then have tK: "t = of_int K" using split by simp
    have "0 < real_of_int K" using dt d(1) tK by linarith
    then have K0: "0 < K" by simp
    have "real_of_int K < real_of_int (2 ^ 53)" using small tK by (simp add: t_def)
    then have "K < 2 ^ 53" by (simp only: of_int_less_iff)
    then have K53: "K \<le> 2 ^ 53" by simp
    have "d * 2 ^ 54 < of_int K" using d(3) tK by (simp add: t_def)
    with K0 K53 d(1) have "fl (of_int K - d) = of_int K"
      by (intro fl_near_int_below)
    then show ?thesis by (simp only: tK floor_of_int)
  next
    case False
    moreover have "0 \<le> N mod B" "N mod B < B" using B(1) by simp_all
    ultimately have r: "1 \<le> N mod B" "N mod B \<le> B - 1" by simp_all
    have "real_of_int 1 \<le> real_of_int (N mod B)" using r(1) by (simp only: of_int_le_iff)
    then have r1: "1 \<le> real_of_int (N mod B)" by simp
    have "real_of_int (N mod B) \<le> real_of_int (B - 1)" using r(2) by (simp only: of_int_le_iff)
    then have r2: "real_of_int (N mod B) \<le> real_of_int B - 1" by simp
    have tenth: "1 / 10 \<le> 1 / real_of_int B"
      using Br by (intro frac_le) simp_all
    have "1 / real_of_int B \<le> real_of_int (N mod B) / real_of_int B"
      using r1 Br(1) by (intro divide_right_mono) simp_all
    then have lo: "of_int K + 1 / 10 \<le> t" using tenth split by linarith
    have "real_of_int (N mod B) / real_of_int B \<le> (real_of_int B - 1) / real_of_int B"
      using r2 Br(1) by (intro divide_right_mono) simp_all
    moreover have "(real_of_int B - 1) / real_of_int B = 1 - 1 / real_of_int B"
      using Br(1) by (simp add: field_simps)
    ultimately have hi: "t \<le> of_int K + 9 / 10" using tenth split by linarith
    have "of_int K \<le> t - d" using lo d(2) by linarith
    then have a: "of_int K \<le> fl (t - d)"
      using pos lt by (intro fl_ge_int) simp_all
    have "fl (t - d) \<le> t - d + 1 / 16" using pos lt by (rule fl_le_add)
    then have b: "fl (t - d) < of_int K + 1" using hi d(1) by linarith
    show ?thesis using a b by (rule floor_unique)
  qed
  then show ?thesis by (simp only: t_def K_def)
qed

lemma win_6_5:
  assumes "0 \<le> w" and "w \<le> 10 ^ 14"
  shows "winAmountOf w (fl (6/5)) = \<lfloor>real_of_int w * (6/5)\<rfloor>"
proof (cases "w = 0")
  case True
  then show ?thesis by (simp add: winAmountOf_def)
next
  case False
  then have "1 \<le> w" using assms(1) by simp
  then have "real_of_int 1 \<le> real_of_int w" by (simp only: of_int_le_iff)
  then have w1: "1 \<le> real_of_int w" by simp
  have w14: "real_of_int w \<le> 10 ^ 14" using assms(2) by (rule real_le_1e14)
  define d where "d = real_of_int w / (5 * 2 ^ 52)"
  have prod: "real_of_int w * fl (6/5) = of_int (6 * w) / of_int 5 - d"
    by (simp add: fl_6_5 d_def)
  have "\<lfloor>fl (real_of_int (6 * w) / of_int 5 - d)\<rfloor> = (6 * w) div 5"
  proof (rule floor_fl_ratio)
    show "(0::int) < 5" "(5::int) \<le> 10" by simp_all
    show "0 \<le> d" using w1 by (simp add: d_def)
    show "d \<le> 1 / 10" using w14 by (simp add: d_def)
    show "d * 2 ^ 54 < real_of_int (6 * w) / real_of_int 5" using w1 by (simp add: d_def)
    show "real_of_int (6 * w) / real_of_int 5 < 2 ^ 50" using w14 by simp
  qed
  moreover have "\<lfloor>real_of_int w * (6/5)\<rfloor> = (6 * w) div 5"
  proof -
    have "real_of_int w * (6/5) = real_of_int (6 * w) / real_of_int 5" by simp
    then show ?thesis by (simp only: floor_divide_of_int_eq)
  qed
  ultimately show ?thesis by (simp only: winAmountOf_def prod)
qed

lemma win_3_10:
  assumes "0 \<le> w" and "w \<le> 10 ^ 14"
  shows "winAmountOf w (fl (3/10)) = \<lfloor>real_of_int w * (3/10)\<rfloor>"
proof (cases "w = 0")
  case True
  then show ?thesis by (simp add: winAmountOf_def)
next
  case False
  then have "1 \<le> w" using assms(1) by simp
  then have "real_of_int 1 \<le> real_of_int w" by (simp only: of_int_le_iff)
  then have w1: "1 \<le> real_of_int w" by simp
  have w14: "real_of_int w \<le> 10 ^ 14" using assms(2) by (rule real_le_1e14)
  define d where "d = real_of_int w / (5 * 2 ^ 54)"
  have prod: "real_of_int w * fl (3/10) = of_int (3 * w) / of_int 10 - d"
    by (simp add: fl_3_10 d_def)
  have "\<lfloor>fl (real_of_int (3 * w) / of_int 10 - d)\<rfloor> = (3 * w) div 10"
  proof (rule floor_fl_ratio)
    show "(0::int) < 10" "(10::int) \<le> 10" by simp_all
    show "0 \<le> d" using w1 by (simp add: d_def)
    show "d \<le> 1 / 10" using w14 by (simp add: d_def)
    show "d * 2 ^ 54 < real_of_int (3 * w) / real_of_int 10" using w1 by (simp add: d_def)
    show "real_of_int (3 * w) / real_of_int 10 < 2 ^ 50" using w14 by simp
  qed
  moreover have "\<lfloor>real_of_int w * (3/10)\<rfloor> = (3 * w) div 10"
  proof -
    have "real_of_int w * (3/10) = real_of_int (3 * w) / real_of_int 10" by simp
    then show ?thesis by (simp only: floor_divide_of_int_eq)
  qed
  ultimately show ?thesis by (simp only: winAmountOf_def prod)
qed

text \<open>Every entry of the table.\<close>

lemma win_listed:
  assumes "0 \<le> w" and "w \<le> 10 ^ 14"
  shows "list_all (\<lambda>m. winAmountOf w (fl m) = \<lfloor>of_int w * m\<rfloor>) listedMultipliers"
  using win_whole [OF assms, of 10] win_whole [OF assms, of 3] win_whole [OF assms, of 1]
    win_halves [OF assms, of 3] win_halves [OF assms, of 1]
    win_6_5 [OF assms] win_3_10 [OF assms]
  by (simp add: listedMultipliers_def)

lemma win_table:
  assumes "0 \<le> w" and "w \<le> 10 ^ 14" and "k < 13"
  shows "winAmountOf w (multipliers CONFIG ! k) = \<lfloor>of_int w * (listedMultipliers ! k)\<rfloor>"
proof -
  have "length listedMultipliers = 13" by (simp add: listedMultipliers_def)
  with win_listed [OF assms(1,2)] assms(3)
  have "winAmountOf w (fl (listedMultipliers ! k)) = \<lfloor>of_int w * (listedMultipliers ! k)\<rfloor>"
    by (simp add: list_all_length)
  then show ?thesis by (simp only: multipliers_nth [OF assms(3)])
qed

lemma win_credited:
  assumes "0 \<le> w" and "w \<le> 10 ^ 14" and "k < 13" and "0 \<le> fst (getBalance m)"
    and "fst (getBalance m) + \<lfloor>of_int w * (listedMultipliers ! k)\<rfloor> \<le> 2 ^ 53"
  shows "fst (getBalance (snd (award (of_int (winAmountOf w (multipliers CONFIG ! k))) m)))
    = fst (getBalance m) + \<lfloor>of_int w * (listedMultipliers ! k)\<rfloor>"
proof -
  let ?b = "fst (getBalance m)"
  define W where "W = \<lfloor>real_of_int w * (listedMultipliers ! k)\<rfloor>"
  have win: "winAmountOf w (multipliers CONFIG ! k) = W"
    unfolding W_def using assms(1-3) by (rule win_table)
  have "0 \<le> real_of_int w * (listedMultipliers ! k)"
    using assms(1,3) by (simp add: listedMultipliers_nonneg)
  then have W0: "0 \<le> W" by (simp add: W_def)
  have sum: "fl (of_int ?b + of_int W) = of_int (?b + W)"
    using assms(4,5) W0 fl_of_int [of "?b + W"] by (simp add: W_def)
  have mx: "max 0 \<lfloor>fl (of_int ?b + of_int W)\<rfloor> = ?b + W"
    using assms(4) W0 by (simp only: sum floor_of_int)
  have "?b + W < 10 ^ 21"
    using assms(5) by (intro below_1e21) (simp add: W_def)
  then have "fst (getBalance (snd (award (of_int W) m))) = max 0 \<lfloor>fl (of_int ?b + of_int W)\<rfloor>"
    by (intro getBalance_award) (simp only: mx)
  then have "fst (getBalance (snd (award (of_int W) m))) = ?b + W"
    using mx by (rule trans)
  then show ?thesis by (simp only: win W_def)
qed

text \<open>The scenario states, evaluated.\<close>

lemma CONFIG_fields:
  "canvasWidth CONFIG = 500" "ballDropVariance CONFIG = 15"
  "multipliers CONFIG ! 0 = 10" "multiplierIndexOf 0 = 0"
  by (simp_all add: CONFIG_def listedMultipliers_def multiplierIndexOf_def fl_numeral)

lemmas page_defs = initGame_def chipsLoaded_def ChipManager_init_def
  isLocalStorageAvailable_def dropBall_def canAfford_def deduct_def award_def
  ledger_defs CONFIG_fields

lemma freshPage_eval:
  "freshPage = \<lparr>chips = \<lparr>memoryBalance = None, useMemoryFallback = False, stored = Some 10000,
        getItemThrows = False, setItemThrows = False, dispatched = [10000, 10000]\<rparr>,
      objects = [], balls = [], isDropping = False, dropBtnDisabled = False,
      bucketPositions = snd (createPegs CONFIG), betInput = Some 100,
      timers = [], results = [], highlights = [], alerts = []\<rparr>"
  by (simp add: freshPage_def page_defs)

lemma oneDrop_eval:
  "oneDrop = \<lparr>chips = \<lparr>memoryBalance = None, useMemoryFallback = False, stored = Some 9900,
        getItemThrows = False, setItemThrows = False, dispatched = [10000, 10000, 9900]\<rparr>,
      objects = [\<lparr>dropX = 250, betAmount = 100, landed = False\<rparr>], balls = [0],
      isDropping = True, dropBtnDisabled = True,
      bucketPositions = snd (createPegs CONFIG), betInput = Some 100,
      timers = [ReEnableDrop], results = [], highlights = [], alerts = []\<rparr>"
  by (simp add: oneDrop_def freshPage_eval page_defs)

lemmas step_defs = fire_def collisionStart_def collisionPair_def handleBallLanding_def
  runTimer_def reEnableDrop_def removeBall_def setBet_def adjustBet_def
  bucketIndexOf_shipped winAmountOf_def page_defs



lemma fiveDrops_eval:
  "run fiveDrops freshPage = Some
     \<lparr>chips = \<lparr>memoryBalance = None, useMemoryFallback = False, stored = Some 9500,
        getItemThrows = False, setItemThrows = False,
        dispatched = [10000, 10000, 9900, 9800, 9700, 9600, 9500]\<rparr>,
      objects = [\<lparr>dropX = 250, betAmount = 100, landed = False\<rparr>,
        \<lparr>dropX = 250, betAmount = 100, landed = False\<rparr>,
        \<lparr>dropX = 250, betAmount = 100, landed = False\<rparr>,
        \<lparr>dropX = 250, betAmount = 100, landed = False\<rparr>,
        \<lparr>dropX = 250, betAmount = 100, landed = False\<rparr>],
      balls = [0, 1, 2, 3, 4], isDropping = True, dropBtnDisabled = True,
      bucketPositions = snd (createPegs CONFIG), betInput = Some 100,
      timers = [ReEnableDrop], results = [], highlights = [], alerts = []\<rparr>"
  by (simp add: fiveDrops_def freshPage_eval step_defs)

lemma firstRetired_eval:
  "run firstRetired freshPage = Some
     \<lparr>chips = \<lparr>memoryBalance = None, useMemoryFallback = False, stored = Some 10500,
        getItemThrows = False, setItemThrows = False,
        dispatched = [10000, 10000, 9900, 9800, 9700, 9600, 9500, 10500]\<rparr>,
      objects = [\<lparr>dropX = 250, betAmount = 100, landed = True\<rparr>,
        \<lparr>dropX = 250, betAmount = 100, landed = False\<rparr>,
        \<lparr>dropX = 250, betAmount = 100, landed = False\<rparr>,
        \<lparr>dropX = 250, betAmount = 100, landed = False\<rparr>,
        \<lparr>dropX = 250, betAmount = 100, landed = False\<rparr>],
      balls = [1, 2, 3, 4], isDropping = True, dropBtnDisabled = True,
      bucketPositions = snd (createPegs CONFIG), betInput = Some 100,
      timers = [], results = [(10, 1000, 100)], highlights = [0], alerts = []\<rparr>"
  by (simp add: firstRetired_def fiveDrops_def freshPage_eval step_defs)


lemma allIn_eval:
  "allIn = \<lparr>chips = \<lparr>memoryBalance = None, useMemoryFallback = False, stored = Some 0,
        getItemThrows = False, setItemThrows = False,
        dispatched = [1995262314969359, 0]\<rparr>,
      objects = [\<lparr>dropX = 250, betAmount = 1995262314969359, landed = False\<rparr>],
      balls = [0], isDropping = True, dropBtnDisabled = True,
      bucketPositions = snd (createPegs CONFIG), betInput = Some 1995262314969359,
      timers = [ReEnableDrop], results = [], highlights = [], alerts = []\<rparr>"
  by (simp add: allIn_def page_defs)

text \<open>
  C6, amended. For every wager \<open>w\<close> with \<open>0 \<le> w \<le> 10^14\<close> and every entry of the
  multiplier table, the win computed at settlement is exactly \<open>floor(w * m)\<close> for the
  multiplier \<open>m\<close> as the table lists it (10, 3, 1.5, 1.2, 1, 0.5, 0.3), and so never
  greater than \<open>w * m\<close>; when the balance is non-negative and the balance plus the win
  is at most 2^53, crediting the win raises the balance by exactly that amount, and
  \<open>handleBallLanding\<close> credits exactly that amount for the ball's wager and the
  multiplier of the resolved bucket; a wager of 100 at the entry 0.3 wins exactly 30.
\<close>

theorem settlement_credits_floor:
  "(0 \<le> w \<and> w \<le> 10 ^ 14 \<and> k < 13 \<longrightarrow>
      winAmountOf w (multipliers CONFIG ! k) = \<lfloor>of_int w * (listedMultipliers ! k)\<rfloor>
      \<and> of_int (winAmountOf w (multipliers CONFIG ! k)) \<le> of_int w * (listedMultipliers ! k))
   \<and> (0 \<le> w \<and> w \<le> 10 ^ 14 \<and> k < 13 \<and> 0 \<le> fst (getBalance m)
        \<and> fst (getBalance m) + \<lfloor>of_int w * (listedMultipliers ! k)\<rfloor> \<le> 2 ^ 53 \<longrightarrow>
      fst (getBalance (snd (award (of_int (winAmountOf w (multipliers CONFIG ! k))) m)))
        = fst (getBalance m) + \<lfloor>of_int w * (listedMultipliers ! k)\<rfloor>)
   \<and> (0 \<le> betAmount (objects g ! i) \<and> betAmount (objects g ! i) \<le> 10 ^ 14
        \<and> 0 \<le> fst (getBalance (chips g))
        \<and> fst (getBalance (chips g))
            + \<lfloor>of_int (betAmount (objects g ! i))
               * (listedMultipliers ! multiplierIndexOf (bucketIndexOf (bucketPositions g) x))\<rfloor>
          \<le> 2 ^ 53 \<longrightarrow>
      fst (getBalance (chips (handleBallLanding i x g)))
        = fst (getBalance (chips g))
          + \<lfloor>of_int (betAmount (objects g ! i))
             * (listedMultipliers ! multiplierIndexOf (bucketIndexOf (bucketPositions g) x))\<rfloor>)
   \<and> listedMultipliers ! 6 = 3/10
   \<and> winAmountOf 100 (multipliers CONFIG ! 6) = 30"
proof (intro conjI impI)
  assume a: "0 \<le> w \<and> w \<le> 10 ^ 14 \<and> k < 13"
  then show eq: "winAmountOf w (multipliers CONFIG ! k)
      = \<lfloor>of_int w * (listedMultipliers ! k)\<rfloor>"
    by (intro win_table) simp_all
  show "of_int (winAmountOf w (multipliers CONFIG ! k)) \<le> of_int w * (listedMultipliers ! k)"
    unfolding eq by (rule of_int_floor_le)
next
  assume "0 \<le> w \<and> w \<le> 10 ^ 14 \<and> k < 13 \<and> 0 \<le> fst (getBalance m)
        \<and> fst (getBalance m) + \<lfloor>of_int w * (listedMultipliers ! k)\<rfloor> \<le> 2 ^ 53"
  then show "fst (getBalance (snd (award (of_int (winAmountOf w (multipliers CONFIG ! k))) m)))
        = fst (getBalance m) + \<lfloor>of_int w * (listedMultipliers ! k)\<rfloor>"
    by (intro win_credited) simp_all
next
  let ?k = "multiplierIndexOf (bucketIndexOf (bucketPositions g) x)"
  let ?w = "betAmount (objects g ! i)"
  assume b: "0 \<le> ?w \<and> ?w \<le> 10 ^ 14 \<and> 0 \<le> fst (getBalance (chips g))
        \<and> fst (getBalance (chips g)) + \<lfloor>of_int ?w * (listedMultipliers ! ?k)\<rfloor> \<le> 2 ^ 53"
  have k: "?k < 13"
    using multiplierIndexOf_le [of "bucketIndexOf (bucketPositions g) x"] by simp
  have land: "chips (handleBallLanding i x g) =
      snd (award (of_int (winAmountOf ?w (multipliers CONFIG ! ?k))) (chips g))"
    by (simp add: handleBallLanding_def Let_def)
  show "fst (getBalance (chips (handleBallLanding i x g)))
        = fst (getBalance (chips g)) + \<lfloor>of_int ?w * (listedMultipliers ! ?k)\<rfloor>"
    unfolding land using b k by (intro win_credited) simp_all
next
  show "listedMultipliers ! 6 = 3/10"
    by (simp add: listedMultipliers_def)
  have "winAmountOf 100 (multipliers CONFIG ! 6) = \<lfloor>of_int 100 * (listedMultipliers ! 6)\<rfloor>"
    by (intro win_table) simp_all
  then show "winAmountOf 100 (multipliers CONFIG ! 6) = 30"
    by (simp add: listedMultipliers_def)
qed

text \<open>
  A wager of 15 at the entry 0.3 wins \<open>floor(4.5) = 4\<close>, and crediting it to the 9900
  chips left after one drop of 100 gives 9904. The landing of that drop, on the
  shipped board, resolves to bucket 0 (multiplier 10) and makes the balance 10900.
\<close>

theorem settlement_credits_floor_witness:
  "(0::int) \<le> 15 \<and> (15::int) \<le> 10 ^ 14 \<and> (6::nat) < 13
   \<and> listedMultipliers ! 6 = 3/10
   \<and> winAmountOf 15 (multipliers CONFIG ! 6) = 4
   \<and> 0 \<le> fst (getBalance (chips oneDrop))
   \<and> fst (getBalance (chips oneDrop)) + \<lfloor>of_int 15 * (listedMultipliers ! 6)\<rfloor> \<le> 2 ^ 53
   \<and> fst (getBalance (snd (award (of_int (winAmountOf 15 (multipliers CONFIG ! 6)))
        (chips oneDrop)))) = 9904
   \<and> 0 \<le> betAmount (objects oneDrop ! 0) \<and> betAmount (objects oneDrop ! 0) \<le> 10 ^ 14
   \<and> fst (getBalance (chips (handleBallLanding 0 250 oneDrop))) = 10900"
proof -
  have b: "fst (getBalance (chips oneDrop)) = 9900"
    by (simp add: oneDrop_eval ledger_defs)
  have w: "betAmount (objects oneDrop ! 0) = 100"
    by (simp add: oneDrop_eval)
  have l: "bucketPositions oneDrop = snd (createPegs CONFIG)"
    by (simp add: oneDrop_eval)
  have m6: "listedMultipliers ! 6 = 3/10" and m0: "listedMultipliers ! 0 = 10"
    by (simp_all add: listedMultipliers_def)
  note t = settlement_credits_floor [where m = "chips oneDrop" and w = 15
      and k = 6 and g = oneDrop and i = 0 and x = 250]
  have win: "winAmountOf 15 (multipliers CONFIG ! 6) = 4"
    using t [THEN conjunct1] by (simp add: m6)
  have credit: "fst (getBalance (snd (award (of_int (winAmountOf 15 (multipliers CONFIG ! 6)))
        (chips oneDrop)))) = 9904"
    using t [THEN conjunct2, THEN conjunct1] by (simp add: b m6)
  have landing: "fst (getBalance (chips (handleBallLanding 0 250 oneDrop))) = 10900"
    using t [THEN conjunct2, THEN conjunct2, THEN conjunct1]
    by (simp add: b w l m0 bucketIndexOf_shipped CONFIG_fields)
  show ?thesis
    by (intro conjI win credit landing) (simp_all add: b w m6)
qed

text \<open>
  The claim as stated fails for large wagers. For the wager 1995262314969359 at
  multiplier 10 the exact product 19952623149693590 is not a double; the product the
  program computes is 19952623149693592, and that is the win, two more than
  \<open>floor(w * m)\<close>. The page \<open>allIn\<close> wagers that amount, and its landing reports and
  credits 19952623149693592 chips.
\<close>

theorem settlement_rounds_up_counterexample:
  "winAmountOf 1995262314969359 (multipliers CONFIG ! 0) = 19952623149693592
   \<and> listedMultipliers ! 0 = 10
   \<and> \<lfloor>real_of_int 1995262314969359 * (listedMultipliers ! 0)\<rfloor> = 19952623149693590
   \<and> betAmount (objects allIn ! 0) = 1995262314969359
   \<and> fst (getBalance (chips allIn)) = 0
   \<and> results (handleBallLanding 0 250 allIn)
       = [(10, 19952623149693592, 1995262314969359)]
   \<and> fst (getBalance (chips (handleBallLanding 0 250 allIn))) = 19952623149693592"
  unfolding allIn_eval
  by (simp add: handleBallLanding_def award_def winAmountOf_def bucketIndexOf_shipped
        ledger_defs CONFIG_fields listedMultipliers_def fl_tie_up fl_multiple_of_4)

section \<open>The landed flag\<close>






lemma collisionPair_objects:
  "length (objects (collisionPair g p)) = length (objects g)"
  by (auto simp: collisionPair_def handleBallLanding_def Let_def split: prod.splits option.splits)









section \<open>Validation of a drop\<close>

text \<open>
  What \<open>dropBall\<close> does reject: a wager below 10 and a wager above the balance change
  neither the balance nor the in-flight balls (an alert is raised); the wager is the
  bet field, 100 when the field is empty or 0. \<open>adjustBet\<close>, the handler of the bet
  buttons, keeps the field between 10 and 10000; \<open>setBet\<close> and the field itself do
  not.
\<close>

lemma adjustBet_range:
  "\<exists>v. betInput (adjustBet delta g) = Some v \<and> 10 \<le> v \<and> v \<le> 10000"
  by (simp add: adjustBet_def Let_def)

lemma dropBall_rejects:
  assumes "bet = (case betInput g of None \<Rightarrow> 100 | Some n \<Rightarrow> if n = 0 then 100 else n)"
    and "bet < 10 \<or> fst (getBalance (chips g)) < bet"
  shows "fst (getBalance (chips (dropBall rnd g))) = fst (getBalance (chips g))"
    and "balls (dropBall rnd g) = balls g"
    and "objects (dropBall rnd g) = objects g"
    and "timers (dropBall rnd g) = timers g"
  using assms
  by (auto simp: dropBall_def canAfford_def split_beta getBalance_again Let_def
      split: option.splits if_splits)

text \<open>
  C5. The run \<open>bigBet\<close> from a first visit: a wager of 10000 wins 100000 chips
  (every landing on the shipped board pays tenfold), and the next wager, 50000, above
  the maximum of 10000 that \<open>adjustBet\<close> enforces, is accepted: the balance is debited
  to 50000 and a second ball is in flight. \<open>dropBall\<close> has no upper bound check.
\<close>

theorem dropBall_accepts_above_maximum:
  "run bigBet freshPage = Some
     \<lparr>chips = \<lparr>memoryBalance = None, useMemoryFallback = False, stored = Some 50000,
        getItemThrows = False, setItemThrows = False,
        dispatched = [10000, 10000, 0, 100000, 50000]\<rparr>,
      objects = [\<lparr>dropX = 250, betAmount = 10000, landed = True\<rparr>,
        \<lparr>dropX = 250, betAmount = 50000, landed = False\<rparr>],
      balls = [1], isDropping = True, dropBtnDisabled = True,
      bucketPositions = snd (createPegs CONFIG), betInput = Some 50000,
      timers = [ReEnableDrop], results = [(10, 100000, 10000)], highlights = [0],
      alerts = []\<rparr>"
  by (simp add: bigBet_def freshPage_eval step_defs)

section \<open>The cap on balls in flight\<close>

text \<open>Every event of the page keeps the cap.\<close>

lemma dropBall_withinCap: "withinCap g \<Longrightarrow> withinCap (dropBall rnd g)"
  by (auto simp: withinCap_def dropBall_def Let_def split: prod.splits)

lemma removeBall_withinCap: "withinCap g \<Longrightarrow> withinCap (removeBall i (g\<lparr>timers := ts\<rparr>))"
proof -
  assume w: "withinCap g"
  have le: "length (filter (\<lambda>b. b \<noteq> i) (balls g)) \<le> length (balls g)"
    by simp
  show ?thesis
    using w le
    by (auto simp: withinCap_def removeBall_def Let_def simp del: length_filter_le)
qed

lemma reEnableDrop_withinCap: "withinCap g \<Longrightarrow> withinCap (reEnableDrop (g\<lparr>timers := ts\<rparr>))"
  by (auto simp: withinCap_def reEnableDrop_def)

lemma collisionPair_frame:
  "balls (collisionPair g p) = balls g"
  "isDropping (collisionPair g p) = isDropping g"
  "dropBtnDisabled (collisionPair g p) = dropBtnDisabled g"
  by (auto simp: collisionPair_def handleBallLanding_def Let_def split: prod.splits option.splits)

lemma collisionStart_frame:
  "balls (collisionStart ps g) = balls g
   \<and> isDropping (collisionStart ps g) = isDropping g
   \<and> dropBtnDisabled (collisionStart ps g) = dropBtnDisabled g"
  by (induction ps arbitrary: g) (simp_all add: collisionStart_def collisionPair_frame)

lemma fire_withinCap: "fire e g = Some g' \<Longrightarrow> withinCap g \<Longrightarrow> withinCap g'"
proof (cases e)
  case (DropBall rnd)
  assume "fire e g = Some g'" "withinCap g"
  with DropBall show ?thesis by (auto simp: fire_def dropBall_withinCap)
next
  case (CollisionStart ps)
  assume "fire e g = Some g'" "withinCap g"
  with CollisionStart show ?thesis
    using collisionStart_frame [of ps g] by (auto simp: fire_def withinCap_def)
next
  case (TimerFires k)
  assume "fire e g = Some g'" "withinCap g"
  with TimerFires show ?thesis
    by (auto simp: fire_def runTimer_def removeBall_withinCap reEnableDrop_withinCap
        split: if_splits timer.splits)
qed (auto simp: fire_def adjustBet_def setBet_def Let_def withinCap_def)

lemma run_withinCap: "run es g = Some g' \<Longrightarrow> withinCap g \<Longrightarrow> withinCap g'"
proof (induction es arbitrary: g)
  case Nil
  then show ?case by simp
next
  case (Cons e es)
  then obtain g1 where g1: "fire e g = Some g1" "run es g1 = Some g'"
    by (auto split: option.splits)
  from Cons.IH [OF g1(2)] fire_withinCap [OF g1(1) Cons.prems(2)]
  show ?case by blast
qed

lemma reachable_withinCap: "reachable g \<Longrightarrow> withinCap g"
proof -
  assume "reachable g"
  then obtain m input es where r: "run es (initGame m input) = Some g"
    unfolding reachable_def by blast
  have "withinCap (initGame m input)"
    by (simp add: withinCap_def initGame_def)
  with r show ?thesis by (rule run_withinCap)
qed

subsection \<open>Drops held back\<close>

lemma collisionPair_reEnable:
  "(ReEnableDrop \<in> set (timers (collisionPair g p))) = (ReEnableDrop \<in> set (timers g))"
  by (auto simp: collisionPair_def handleBallLanding_def Let_def split: prod.splits option.splits)

lemma collisionStart_reEnable:
  "(ReEnableDrop \<in> set (timers (collisionStart ps g))) = (ReEnableDrop \<in> set (timers g))"
  by (induction ps arbitrary: g) (simp_all add: collisionStart_def collisionPair_reEnable)

lemma collisionStart_objects:
  "length (objects (collisionStart ps g)) = length (objects g)"
  by (induction ps arbitrary: g) (simp_all add: collisionStart_def collisionPair_objects)

lemma removed_timer_subset: "set (take k ts @ drop (Suc k) ts) \<subseteq> set ts"
  using set_take_subset [of k ts] set_drop_subset [of "Suc k" ts] by auto

text \<open>
  One event from a held-back state: no ball is created, and the state stays held
  back unless the last ball in flight is retired.
\<close>

lemma fire_heldBack:
  assumes h: "heldBack g" and f: "fire e g = Some g'"
  shows "length (objects g') = length (objects g) \<and> (balls g' = [] \<or> heldBack g')"
proof (cases e)
  case (DropBall rnd)
  then have "g' = g" using h f by (simp add: fire_def dropBall_def heldBack_def)
  then show ?thesis using h by simp
next
  case (AdjustBet delta)
  then show ?thesis using h f by (auto simp: fire_def adjustBet_def Let_def heldBack_def)
next
  case (SetBet amount)
  then show ?thesis using h f by (auto simp: fire_def setBet_def heldBack_def)
next
  case (CollisionStart ps)
  then have g': "g' = collisionStart ps g" using f by (simp add: fire_def)
  have "heldBack g'"
    using h collisionStart_frame [of ps g] collisionStart_reEnable [of ps g]
    unfolding g' heldBack_def by simp
  then show ?thesis by (simp add: g' collisionStart_objects)
next
  case (TimerFires k)
  then have k: "k < length (timers g)"
    and g': "g' = runTimer (timers g ! k)
                    (g\<lparr>timers := take k (timers g) @ drop (Suc k) (timers g)\<rparr>)"
    using f by (auto simp: fire_def split: if_splits)
  have "timers g ! k \<in> set (timers g)" using k by simp
  then have "timers g ! k \<noteq> ReEnableDrop" using h by (auto simp: heldBack_def)
  then obtain i where i: "timers g ! k = RemoveBall i" by (cases "timers g ! k") simp_all
  have "ReEnableDrop \<notin> set (take k (timers g) @ drop (Suc k) (timers g))"
    using h removed_timer_subset [of k "timers g"] by (auto simp: heldBack_def)
  then show ?thesis
    using h unfolding g' i by (auto simp: runTimer_def removeBall_def Let_def heldBack_def)
qed

lemma everEmpty_start: "balls g = [] \<Longrightarrow> everEmpty es g"
  by (cases es) simp_all

lemma run_heldBack:
  "heldBack g \<Longrightarrow> run es g = Some g' \<Longrightarrow> \<not> everEmpty es g \<Longrightarrow>
   heldBack g' \<and> length (objects g') = length (objects g)"
proof (induction es arbitrary: g)
  case Nil
  then show ?case by simp
next
  case (Cons e es)
  from Cons.prems(2) obtain g1 where g1: "fire e g = Some g1" "run es g1 = Some g'"
    by (auto split: option.splits)
  have ne: "\<not> everEmpty es g1" using Cons.prems(3) g1(1) by simp
  then have "balls g1 \<noteq> []" using everEmpty_start [of g1 es] by blast
  with fire_heldBack [OF Cons.prems(1) g1(1)]
  have h1: "heldBack g1" and l1: "length (objects g1) = length (objects g)" by simp_all
  from Cons.IH [OF h1 g1(2) ne] l1 show ?case by simp
qed

lemma fiveHeld_eval:
  "run fiveHeld freshPage = Some
     \<lparr>chips = \<lparr>memoryBalance = None, useMemoryFallback = False, stored = Some 9500,
        getItemThrows = False, setItemThrows = False,
        dispatched = [10000, 10000, 9900, 9800, 9700, 9600, 9500]\<rparr>,
      objects = [\<lparr>dropX = 250, betAmount = 100, landed = False\<rparr>,
        \<lparr>dropX = 250, betAmount = 100, landed = False\<rparr>,
        \<lparr>dropX = 250, betAmount = 100, landed = False\<rparr>,
        \<lparr>dropX = 250, betAmount = 100, landed = False\<rparr>,
        \<lparr>dropX = 250, betAmount = 100, landed = False\<rparr>],
      balls = [0, 1, 2, 3, 4], isDropping = True, dropBtnDisabled = True,
      bucketPositions = snd (createPegs CONFIG), betInput = Some 100,
      timers = [], results = [], highlights = [], alerts = []\<rparr>"
  by (simp add: fiveHeld_def fiveDrops_def freshPage_eval step_defs)

text \<open>
  C4, amended. In every reachable state at most five balls are in flight, and while
  five are, a drop request is rejected: \<open>dropBall\<close> returns the state as it is, with no
  debit and no ball. What rejects is the \<open>isDropping\<close> flag, which in every reachable
  state equals the button's \<open>disabled\<close>: whenever the flag is set, \<open>dropBall\<close> returns
  the state as it is. After the retirement of a ball the flag is set exactly when it
  was set and another ball is left in flight; after the 300 ms re-enable callback it
  is set exactly when it was set and at least five balls are in flight. From a
  reachable state in which the flag is set, a ball is in flight and no re-enable
  callback is pending, every run that passes no state without a ball in flight ends
  in a state of that kind again, with no ball created on the way, and a drop request
  there is rejected.
\<close>

theorem drop_rejected_at_cap:
  assumes "reachable g"
  shows "length (balls g) \<le> 5
    \<and> (5 \<le> length (balls g) \<longrightarrow> isDropping g \<and> dropBall rnd g = g)
    \<and> isDropping g = dropBtnDisabled g
    \<and> (isDropping g \<longrightarrow> dropBall rnd g = g)
    \<and> isDropping (removeBall i g)
        = (isDropping g \<and> filter (\<lambda>b. b \<noteq> i) (balls g) \<noteq> [])
    \<and> isDropping (reEnableDrop g) = (isDropping g \<and> 5 \<le> length (balls g))
    \<and> (heldBack g \<and> run es g = Some g' \<and> \<not> everEmpty es g \<longrightarrow>
         heldBack g' \<and> length (objects g') = length (objects g) \<and> dropBall rnd g' = g')"
proof -
  have w: "withinCap g" using assms by (rule reachable_withinCap)
  have rej: "isDropping g \<longrightarrow> dropBall rnd g = g"
    by (simp add: dropBall_def)
  have rm: "isDropping (removeBall i g)
        = (isDropping g \<and> filter (\<lambda>b. b \<noteq> i) (balls g) \<noteq> [])"
    by (simp add: removeBall_def Let_def)
  have re: "isDropping (reEnableDrop g) = (isDropping g \<and> 5 \<le> length (balls g))"
    by (auto simp: reEnableDrop_def)
  have held: "heldBack g \<and> run es g = Some g' \<and> \<not> everEmpty es g \<longrightarrow>
         heldBack g' \<and> length (objects g') = length (objects g) \<and> dropBall rnd g' = g'"
  proof
    assume a: "heldBack g \<and> run es g = Some g' \<and> \<not> everEmpty es g"
    then have "heldBack g" and "run es g = Some g'" and "\<not> everEmpty es g"
      by simp_all
    then have r: "heldBack g' \<and> length (objects g') = length (objects g)"
      by (rule run_heldBack)
    then have "dropBall rnd g' = g'" by (simp add: heldBack_def dropBall_def)
    with r show "heldBack g' \<and> length (objects g') = length (objects g)
        \<and> dropBall rnd g' = g'" by simp
  qed
  have first: "length (balls g) \<le> 5
    \<and> (5 \<le> length (balls g) \<longrightarrow> isDropping g \<and> dropBall rnd g = g)
    \<and> isDropping g = dropBtnDisabled g"
    using w rej by (auto simp: withinCap_def)
  note f1 = first [THEN conjunct1] and f2 = first [THEN conjunct2, THEN conjunct1]
    and f3 = first [THEN conjunct2, THEN conjunct2]
  show ?thesis
    by (intro conjI f1 f2 f3 rej rm re held)
qed

text \<open>
  Five drops of 100 chips, each after the re-enable timer of the one before, and the
  fifth timer: five balls are in flight, no timer is pending and a sixth request
  changes nothing; the balance stays 9500. Then the first ball lands and is retired:
  four balls are in flight, the state is still held back, no sixth ball exists and
  the request that follows is rejected.
\<close>

theorem drop_rejected_at_cap_witness:
  "reachable (the (run fiveHeld freshPage))
   \<and> length (balls (the (run fiveHeld freshPage))) = 5
   \<and> isDropping (the (run fiveHeld freshPage))
   \<and> dropBall (1/2) (the (run fiveHeld freshPage)) = the (run fiveHeld freshPage)
   \<and> fst (getBalance (chips (dropBall (1/2) (the (run fiveHeld freshPage))))) = 9500
   \<and> heldBack (the (run fiveHeld freshPage))
   \<and> \<not> everEmpty retireOne (the (run fiveHeld freshPage))
   \<and> (case run retireOne (the (run fiveHeld freshPage)) of
         None \<Rightarrow> False
       | Some g' \<Rightarrow> heldBack g' \<and> length (balls g') = 4 \<and> length (objects g') = 5
           \<and> dropBall (1/2) g' = g')"
proof -
  let ?g = "the (run fiveHeld freshPage)"
  have some: "run fiveHeld freshPage = Some ?g"
    by (simp add: fiveHeld_eval)
  have r: "reachable ?g"
    unfolding reachable_def freshPage_def [symmetric]
    using some freshPage_def by metis
  have five: "length (balls ?g) = 5" and objs: "length (objects ?g) = 5"
    by (simp_all add: fiveHeld_eval)
  have bal: "fst (getBalance (chips ?g)) = 9500"
    by (simp add: fiveHeld_eval ledger_defs)
  have h: "heldBack ?g"
    by (simp add: fiveHeld_eval heldBack_def)
  have ne: "\<not> everEmpty retireOne ?g"
    by (simp add: fiveHeld_eval retireOne_def step_defs)
  obtain g' where run: "run retireOne ?g = Some g'" and four: "length (balls g') = 4"
    by (simp add: fiveHeld_eval retireOne_def step_defs)
  note t = drop_rejected_at_cap [OF r, of "1/2" 0 retireOne g']
  have d: "isDropping ?g \<and> dropBall (1/2) ?g = ?g"
    using t [THEN conjunct2, THEN conjunct1] five by simp
  have after: "heldBack g' \<and> length (objects g') = length (objects ?g)
      \<and> dropBall (1/2) g' = g'"
    using t [THEN conjunct2, THEN conjunct2, THEN conjunct2, THEN conjunct2,
        THEN conjunct2, THEN conjunct2, THEN mp, OF conjI [OF h conjI [OF run ne]]] .
  have later: "case run retireOne ?g of None \<Rightarrow> False
      | Some g' \<Rightarrow> heldBack g' \<and> length (balls g') = 4 \<and> length (objects g') = 5
          \<and> dropBall (1/2) g' = g'"
    using after four objs by (simp only: run option.case)
  have d1: "isDropping ?g" and d2: "dropBall (1/2) ?g = ?g"
    using d by simp_all
  have bal2: "fst (getBalance (chips (dropBall (1/2) ?g))) = 9500"
    by (simp only: d2 bal)
  show ?thesis
    by (intro conjI r five d1 d2 bal2 h ne later)
qed

text \<open>
  The claim as stated fails after the first retirement. In the run \<open>firstRetired\<close> the
  fifth drop's timer fires with five balls in flight, ball 0 lands, settles and is
  retired. Four balls are in flight, below the cap, and a drop request is still
  rejected: the state is unchanged. (A drop is only accepted after the timer of the
  one before has fired, so this is the order of five quick drops whose first ball is
  still in flight when the fifth timer fires.)
\<close>

theorem sixth_drop_counterexample:
  "(case run firstRetired freshPage of
      None \<Rightarrow> False
    | Some g \<Rightarrow> length (balls g) = 4 \<and> landed (objects g ! 0) \<and> isDropping g
        \<and> dropBall (1/2) g = g)"
  by (simp add: firstRetired_eval dropBall_def)

end
